theory Spec2Isabelle
  imports Main "HOL-Library.Word"
begin

section \<open>Values, addresses and the outcome of a call\<close>

text \<open>
  The header \<^verbatim>\<open>include/queue_pmr.hpp\<close> defines a memory resource that records every
  block it hands out (\<^verbatim>\<open>DynamicVectorMemoryResource\<close>), a singly linked queue that takes
  its node storage from such a resource (\<^verbatim>\<open>pmr_queue\<close>) and a forward iterator over the
  nodes (\<^verbatim>\<open>QueueIterator\<close>).

  Pointers and \<^verbatim>\<open>std::size_t\<close> are 64-bit words (an LP64 platform); the null pointer is
  the word 0.  Data members keep their names, with the trailing underscore of the source
  written \<open>_m\<close> (\<^verbatim>\<open>head_\<close> is \<open>head_m\<close>), and \<^verbatim>\<open>BlockInfo::size\<close> is \<open>size_b\<close>.
\<close>

type_synonym addr = "64 word"
type_synonym size_t = "64 word"

definition nullptr :: addr where
  "nullptr = 0"

text \<open>
  A call returns, throws a C++ exception, or has undefined behaviour (it reads through a
  null or dangling pointer, or hands \<^verbatim>\<open>operator delete\<close> a block that is not allocated).
  A returning or throwing call leaves a state behind; \<open>value_ctor_exception\<close> stands for
  whatever the element type's own constructor throws.
\<close>

datatype exc = bad_alloc | runtime_error string | value_ctor_exception

datatype ('r, 's) outcome = Returns 'r 's | Throws exc 's | Undefined

fun reported :: "('r, 's) outcome \<Rightarrow> bool" where
  "reported (Throws e s) = True"
| "reported (Returns r s) = False"
| "reported Undefined = False"

section \<open>The system allocator\<close>

text \<open>
  \<^verbatim>\<open>::operator new(bytes, std::align_val_t(alignment))\<close> and the matching
  \<^verbatim>\<open>::operator delete\<close> belong to the C++ runtime.  The system heap is the map of the
  blocks that are allocated now (address to size and alignment) and the log of the blocks
  released so far.  Which address the runtime picks is not determined by the program, so
  the answer of each \<^verbatim>\<open>operator new\<close> call is an argument of the model: \<open>None\<close> when
  it throws \<^verbatim>\<open>std::bad_alloc\<close>, \<open>Some p\<close> when it returns \<open>p\<close>.  The language promises
  (\<open>new_ok\<close>) that a returned address is not null and not that of a block allocated now;
  it may well be the address of a block released earlier.  Releasing the null pointer does
  nothing; releasing an address that is not allocated, or with another alignment than it
  was allocated with, is undefined.
\<close>

record sysheap =
  live :: "addr \<rightharpoonup> size_t \<times> size_t"
  deleted :: "(addr \<times> size_t) list"

definition new_ok :: "sysheap \<Rightarrow> addr option \<Rightarrow> bool" where
  "new_ok h r = (case r of None \<Rightarrow> True | Some p \<Rightarrow> p \<noteq> nullptr \<and> live h p = None)"

definition operator_new :: "sysheap \<Rightarrow> addr option \<Rightarrow> size_t \<Rightarrow> size_t \<Rightarrow> (addr, sysheap) outcome" where
  "operator_new h r bytes al =
     (case r of
        None \<Rightarrow> Throws bad_alloc h
      | Some p \<Rightarrow> Returns p (h\<lparr>live := (live h)(p \<mapsto> (bytes, al))\<rparr>))"

definition operator_delete :: "sysheap \<Rightarrow> addr \<Rightarrow> size_t \<Rightarrow> (unit, sysheap) outcome" where
  "operator_delete h p al =
     (if p = nullptr then Returns () h
      else case live h p of
        None \<Rightarrow> Undefined
      | Some (bytes, al') \<Rightarrow>
          if al' = al
          then Returns () (h\<lparr>live := (live h)(p := None), deleted := deleted h @ [(p, al)]\<rparr>)
          else Undefined)"

section \<open>DynamicVectorMemoryResource\<close>

record BlockInfo =
  ptr :: addr
  size_b :: size_t
  alignment :: size_t
  allocated :: bool

record DynamicVectorMemoryResource =
  blocks_m :: "BlockInfo list"

definition DynamicVectorMemoryResource_ctor :: DynamicVectorMemoryResource where
  "DynamicVectorMemoryResource_ctor = \<lparr>blocks_m = []\<rparr>"

text \<open>
  \<^verbatim>\<open>std::find_if\<close> returns the position of the first element that satisfies the
  predicate, or the end position (\<open>None\<close>).  The public \<^verbatim>\<open>allocate\<close> and
  \<^verbatim>\<open>deallocate\<close> of \<^verbatim>\<open>std::pmr::memory_resource\<close> pass their arguments on to
  \<^verbatim>\<open>do_allocate\<close> and \<^verbatim>\<open>do_deallocate\<close>.  The storage of the vector \<^verbatim>\<open>blocks_\<close>
  itself is not part of the model: \<^verbatim>\<open>push_back\<close> is taken to succeed.
\<close>

fun find_if :: "('a \<Rightarrow> bool) \<Rightarrow> 'a list \<Rightarrow> nat option" where
  "find_if P [] = None"
| "find_if P (x # xs) = (if P x then Some 0 else map_option Suc (find_if P xs))"

definition find_block :: "DynamicVectorMemoryResource \<Rightarrow> addr \<Rightarrow> nat option" where
  "find_block mr p = find_if (\<lambda>b. ptr b = p) (blocks_m mr)"

definition do_allocate ::
  "DynamicVectorMemoryResource \<times> sysheap \<Rightarrow> addr option \<Rightarrow> size_t \<Rightarrow> size_t
     \<Rightarrow> (addr, DynamicVectorMemoryResource \<times> sysheap) outcome" where
  "do_allocate s r bytes al =
     (case s of (mr, h) \<Rightarrow>
        (case operator_new h r bytes al of
           Returns p h' \<Rightarrow>
             Returns p
               (mr\<lparr>blocks_m := blocks_m mr @
                      [\<lparr>ptr = p, size_b = bytes, alignment = al, allocated = True\<rparr>]\<rparr>, h')
         | Throws e h' \<Rightarrow> Throws e (mr, h')
         | Undefined \<Rightarrow> Undefined))"

definition do_deallocate ::
  "DynamicVectorMemoryResource \<times> sysheap \<Rightarrow> addr \<Rightarrow> size_t \<Rightarrow> size_t
     \<Rightarrow> (unit, DynamicVectorMemoryResource \<times> sysheap) outcome" where
  "do_deallocate s p bytes al =
     (case s of (mr, h) \<Rightarrow>
        (case find_block mr p of
           None \<Rightarrow> Returns () (mr, h)
         | Some i \<Rightarrow>
             if allocated (blocks_m mr ! i)
             then (case operator_delete h p (alignment (blocks_m mr ! i)) of
                     Returns u h' \<Rightarrow>
                       Returns ()
                         (mr\<lparr>blocks_m := (blocks_m mr)[i := (blocks_m mr ! i)\<lparr>allocated := False\<rparr>]\<rparr>, h')
                   | Throws e h' \<Rightarrow> Throws e (mr, h')
                   | Undefined \<Rightarrow> Undefined)
             else Returns () (mr, h)))"

text \<open>The destructor's loop over \<^verbatim>\<open>blocks_\<close>, first record first.\<close>

fun release_blocks :: "BlockInfo list \<Rightarrow> sysheap \<Rightarrow> (unit, sysheap) outcome" where
  "release_blocks [] h = Returns () h"
| "release_blocks (block # rest) h =
     (if allocated block
      then (case operator_delete h (ptr block) (alignment block) of
              Returns u h' \<Rightarrow> release_blocks rest h'
            | Throws e h' \<Rightarrow> Throws e h'
            | Undefined \<Rightarrow> Undefined)
      else release_blocks rest h)"

definition DynamicVectorMemoryResource_dtor ::
  "DynamicVectorMemoryResource \<Rightarrow> sysheap \<Rightarrow> (unit, sysheap) outcome" where
  "DynamicVectorMemoryResource_dtor mr h = release_blocks (blocks_m mr) h"

text \<open>
  A client's calls on one resource, in order.  An exception leaves the state of the throw
  behind and the client goes on; undefined behaviour ends the run (\<open>None\<close>).
\<close>

datatype mr_call = Allocate "addr option" size_t size_t | Deallocate addr size_t size_t

fun mr_step ::
  "mr_call \<Rightarrow> DynamicVectorMemoryResource \<times> sysheap \<Rightarrow> (DynamicVectorMemoryResource \<times> sysheap) option" where
  "mr_step (Allocate r bytes al) s =
     (case do_allocate s r bytes al of
        Returns p s' \<Rightarrow> Some s' | Throws e s' \<Rightarrow> Some s' | Undefined \<Rightarrow> None)"
| "mr_step (Deallocate p bytes al) s =
     (case do_deallocate s p bytes al of
        Returns u s' \<Rightarrow> Some s' | Throws e s' \<Rightarrow> Some s' | Undefined \<Rightarrow> None)"

fun mr_run ::
  "mr_call list \<Rightarrow> DynamicVectorMemoryResource \<times> sysheap \<Rightarrow> (DynamicVectorMemoryResource \<times> sysheap) option" where
  "mr_run [] s = Some s"
| "mr_run (c # cs) s = (case mr_step c s of None \<Rightarrow> None | Some s' \<Rightarrow> mr_run cs s')"

text \<open>
  \<open>mr_answers_ok\<close> says that every answer of \<^verbatim>\<open>operator new\<close> along a run of calls on
  the resource keeps the promise \<open>new_ok\<close>.
\<close>

fun mr_answer_ok :: "mr_call \<Rightarrow> DynamicVectorMemoryResource \<times> sysheap \<Rightarrow> bool" where
  "mr_answer_ok (Allocate r bytes al) s = new_ok (snd s) r"
| "mr_answer_ok (Deallocate p bytes al) s = True"

fun mr_answers_ok :: "mr_call list \<Rightarrow> DynamicVectorMemoryResource \<times> sysheap \<Rightarrow> bool" where
  "mr_answers_ok [] s = True"
| "mr_answers_ok (c # cs) s =
     (mr_answer_ok c s \<and> (case mr_step c s of None \<Rightarrow> True | Some s' \<Rightarrow> mr_answers_ok cs s'))"

section \<open>QueueNode and QueueIterator\<close>

record 'a QueueNode =
  "value" :: 'a
  "next" :: addr

text \<open>
  The node memory maps the address of every constructed node to its contents.  Reading a
  node through a null pointer, or through an address that holds no constructed node, has
  no result.
\<close>

definition node_at :: "(addr \<rightharpoonup> 'a QueueNode) \<Rightarrow> addr \<Rightarrow> 'a QueueNode option" where
  "node_at m p = (if p = nullptr then None else m p)"

record QueueIterator =
  node_m :: addr

definition QueueIterator_ctor :: "addr \<Rightarrow> QueueIterator" where
  "QueueIterator_ctor node = \<lparr>node_m = node\<rparr>"

definition QueueIterator_default :: QueueIterator where
  "QueueIterator_default = QueueIterator_ctor nullptr"

definition operator_star :: "QueueIterator \<Rightarrow> (addr \<rightharpoonup> 'a QueueNode) \<Rightarrow> ('a, unit) outcome" where
  "operator_star it m =
     (case node_at m (node_m it) of None \<Rightarrow> Undefined | Some n \<Rightarrow> Returns (value n) ())"

text \<open>
  \<^verbatim>\<open>operator->\<close> returns the address of the node's \<^verbatim>\<open>value\<close> member, the first member
  of the node: the node's own address.
\<close>

definition operator_arrow :: "QueueIterator \<Rightarrow> (addr \<rightharpoonup> 'a QueueNode) \<Rightarrow> (addr, unit) outcome" where
  "operator_arrow it m =
     (case node_at m (node_m it) of None \<Rightarrow> Undefined | Some n \<Rightarrow> Returns (node_m it) ())"

text \<open>
  The increments change the iterator they are called on: the state of the outcome is the
  iterator afterwards.  The post-increment returns the copy it took before.
\<close>

definition operator_preinc ::
  "QueueIterator \<Rightarrow> (addr \<rightharpoonup> 'a QueueNode) \<Rightarrow> (unit, QueueIterator) outcome" where
  "operator_preinc it m =
     (if node_m it \<noteq> nullptr
      then (case node_at m (node_m it) of
              None \<Rightarrow> Undefined
            | Some n \<Rightarrow> Returns () (it\<lparr>node_m := next n\<rparr>))
      else Returns () it)"

definition operator_postinc ::
  "QueueIterator \<Rightarrow> (addr \<rightharpoonup> 'a QueueNode) \<Rightarrow> (QueueIterator, QueueIterator) outcome" where
  "operator_postinc it m =
     (let tmp = it in
      case operator_preinc it m of
        Returns u it' \<Rightarrow> Returns tmp it'
      | Throws e it' \<Rightarrow> Throws e it'
      | Undefined \<Rightarrow> Undefined)"

definition operator_eq :: "QueueIterator \<Rightarrow> QueueIterator \<Rightarrow> bool" where
  "operator_eq it other = (node_m it = node_m other)"

definition operator_ne :: "QueueIterator \<Rightarrow> QueueIterator \<Rightarrow> bool" where
  "operator_ne it other = (\<not> operator_eq it other)"

section \<open>pmr\_queue\<close>

record pmr_queue =
  head_m :: addr
  tail_m :: addr
  size_m :: size_t

text \<open>
  The member functions \<^verbatim>\<open>empty\<close>, \<^verbatim>\<open>size\<close>, \<^verbatim>\<open>begin\<close> and \<^verbatim>\<open>end\<close> are
  \<open>queue_empty\<close>, \<open>queue_size\<close>, \<open>queue_begin\<close> and \<open>queue_end\<close>.

  What a queue works on: the system heap, the resource its allocator is bound to, and the
  node memory.  \<^verbatim>\<open>sizeof(Node)\<close> and \<^verbatim>\<open>alignof(Node)\<close> depend on the element type and
  are given by a layout.
\<close>

record 'a world =
  heap :: sysheap
  res :: DynamicVectorMemoryResource
  nodes :: "addr \<rightharpoonup> 'a QueueNode"

record layout =
  sizeof_Node :: size_t
  alignof_Node :: size_t

definition pmr_queue_ctor :: pmr_queue where
  "pmr_queue_ctor = \<lparr>head_m = nullptr, tail_m = nullptr, size_m = 0\<rparr>"

text \<open>
  \<^verbatim>\<open>push\<close>: the allocator asks the resource for one node, that is for
  \<^verbatim>\<open>sizeof(Node)\<close> bytes aligned to \<^verbatim>\<open>alignof(Node)\<close> (\<open>r\<close> is the answer of
  \<^verbatim>\<open>operator new\<close>), then the node is constructed in place (\<open>ctor_ok\<close> tells whether the
  constructor of the element returns), then the node is linked behind the tail.  The
  overload taking an rvalue has the same body.
\<close>

definition push ::
  "layout \<Rightarrow> 'a \<Rightarrow> addr option \<Rightarrow> bool \<Rightarrow> pmr_queue \<times> 'a world
     \<Rightarrow> (unit, pmr_queue \<times> 'a world) outcome" where
  "push L v r ctor_ok s =
     (case s of (q, w) \<Rightarrow>
        (case do_allocate (res w, heap w) r (sizeof_Node L) (alignof_Node L) of
           Undefined \<Rightarrow> Undefined
         | Throws e (mr', h') \<Rightarrow> Throws e (q, w\<lparr>res := mr', heap := h'\<rparr>)
         | Returns newNode (mr', h') \<Rightarrow>
             (let w1 = w\<lparr>res := mr', heap := h'\<rparr> in
              if \<not> ctor_ok then Throws value_ctor_exception (q, w1)
              else
                (let w2 = w1\<lparr>nodes := (nodes w1)(newNode \<mapsto> \<lparr>value = v, next = nullptr\<rparr>)\<rparr> in
                 if tail_m q = nullptr
                 then Returns ()
                        (q\<lparr>head_m := newNode, tail_m := newNode, size_m := size_m q + 1\<rparr>, w2)
                 else (case node_at (nodes w2) (tail_m q) of
                         None \<Rightarrow> Undefined
                       | Some t \<Rightarrow>
                           Returns ()
                             (q\<lparr>tail_m := newNode, size_m := size_m q + 1\<rparr>,
                              w2\<lparr>nodes := (nodes w2)(tail_m q \<mapsto> t\<lparr>next := newNode\<rparr>)\<rparr>))))))"

definition pop ::
  "layout \<Rightarrow> pmr_queue \<times> 'a world \<Rightarrow> (unit, pmr_queue \<times> 'a world) outcome" where
  "pop L s =
     (case s of (q, w) \<Rightarrow>
        if head_m q = nullptr then Throws (runtime_error ''pop from empty queue'') (q, w)
        else (case node_at (nodes w) (head_m q) of
                None \<Rightarrow> Undefined
              | Some n \<Rightarrow>
                  (let tmp = head_m q;
                       q1 = q\<lparr>head_m := next n\<rparr>;
                       q2 = (if head_m q1 = nullptr then q1\<lparr>tail_m := nullptr\<rparr> else q1);
                       w1 = w\<lparr>nodes := (nodes w)(tmp := None)\<rparr>
                   in case do_deallocate (res w1, heap w1) tmp (sizeof_Node L) (alignof_Node L) of
                        Undefined \<Rightarrow> Undefined
                      | Throws e (mr', h') \<Rightarrow> Throws e (q2, w1\<lparr>res := mr', heap := h'\<rparr>)
                      | Returns u (mr', h') \<Rightarrow>
                          Returns () (q2\<lparr>size_m := size_m q2 - 1\<rparr>, w1\<lparr>res := mr', heap := h'\<rparr>))))"

definition front :: "pmr_queue \<Rightarrow> 'a world \<Rightarrow> ('a, unit) outcome" where
  "front q w =
     (if head_m q = nullptr then Throws (runtime_error ''front of empty queue'') ()
      else (case node_at (nodes w) (head_m q) of
              None \<Rightarrow> Undefined
            | Some n \<Rightarrow> Returns (value n) ()))"

definition queue_empty :: "pmr_queue \<Rightarrow> bool" where
  "queue_empty q = (head_m q = nullptr)"

definition queue_size :: "pmr_queue \<Rightarrow> size_t" where
  "queue_size q = size_m q"

definition queue_begin :: "pmr_queue \<Rightarrow> QueueIterator" where
  "queue_begin q = QueueIterator_ctor (head_m q)"

definition queue_end :: "pmr_queue \<Rightarrow> QueueIterator" where
  "queue_end q = QueueIterator_ctor nullptr"

section \<open>Client loops\<close>

text \<open>
  The range-based loop of the tests and of the demo program,
  \<^verbatim>\<open>for (const auto &x : q) actual.push_back(x);\<close>, which is
  \<^verbatim>\<open>for (it = q.begin(); it != q.end(); ++it) actual.push_back(*it);\<close>.
  The fuel bounds the number of times the loop test is evaluated; \<open>None\<close> means the
  fuel ran out before the loop ended.
\<close>

fun iterate ::
  "nat \<Rightarrow> (addr \<rightharpoonup> 'a QueueNode) \<Rightarrow> QueueIterator \<Rightarrow> QueueIterator \<Rightarrow> 'a list
     \<Rightarrow> ('a list, unit) outcome option" where
  "iterate 0 m it e actual = None"
| "iterate (Suc k) m it e actual =
     (if operator_ne it e
      then (case operator_star it m of
              Undefined \<Rightarrow> Some Undefined
            | Throws ex u \<Rightarrow> Some (Throws ex ())
            | Returns x u \<Rightarrow>
                (case operator_preinc it m of
                   Undefined \<Rightarrow> Some Undefined
                 | Throws ex it' \<Rightarrow> Some (Throws ex ())
                 | Returns u' it' \<Rightarrow> iterate k m it' e (actual @ [x])))
      else Some (Returns actual ()))"

definition collect :: "nat \<Rightarrow> pmr_queue \<Rightarrow> 'a world \<Rightarrow> ('a list, unit) outcome option" where
  "collect k q w = iterate k (nodes w) (queue_begin q) (queue_end q) []"

text \<open>
  Pushing a list of values, each with the address the system hands out for its node, and
  popping \<open>n\<close> times; both stop at the first call that does not return.
\<close>

fun push_all ::
  "layout \<Rightarrow> (addr \<times> 'a) list \<Rightarrow> pmr_queue \<times> 'a world \<Rightarrow> (unit, pmr_queue \<times> 'a world) outcome" where
  "push_all L [] s = Returns () s"
| "push_all L (pv # pvs) s =
     (case push L (snd pv) (Some (fst pv)) True s of
        Returns u s' \<Rightarrow> push_all L pvs s'
      | Throws e s' \<Rightarrow> Throws e s'
      | Undefined \<Rightarrow> Undefined)"

fun pop_n ::
  "layout \<Rightarrow> nat \<Rightarrow> pmr_queue \<times> 'a world \<Rightarrow> (unit, pmr_queue \<times> 'a world) outcome" where
  "pop_n L 0 s = Returns () s"
| "pop_n L (Suc n) s =
     (case pop L s of
        Returns u s' \<Rightarrow> pop_n L n s'
      | Throws e s' \<Rightarrow> Throws e s'
      | Undefined \<Rightarrow> Undefined)"

text \<open>
  Any sequence of pushes and pops on one queue.  A push carries the value, the answer of
  \<^verbatim>\<open>operator new\<close> and whether the element's constructor returns.  A call that throws
  leaves the state of the throw behind and the client goes on; undefined behaviour ends the
  run (\<open>None\<close>).  \<open>answers_ok\<close> says that every answer of \<^verbatim>\<open>operator new\<close> along the run
  keeps the promise \<open>new_ok\<close>.
\<close>

datatype 'a call = Push 'a "addr option" bool | Pop

fun step :: "layout \<Rightarrow> 'a call \<Rightarrow> pmr_queue \<times> 'a world \<Rightarrow> (pmr_queue \<times> 'a world) option" where
  "step L (Push v r ctor_ok) s =
     (case push L v r ctor_ok s of
        Returns u s' \<Rightarrow> Some s' | Throws e s' \<Rightarrow> Some s' | Undefined \<Rightarrow> None)"
| "step L Pop s =
     (case pop L s of
        Returns u s' \<Rightarrow> Some s' | Throws e s' \<Rightarrow> Some s' | Undefined \<Rightarrow> None)"

fun run :: "layout \<Rightarrow> 'a call list \<Rightarrow> pmr_queue \<times> 'a world \<Rightarrow> (pmr_queue \<times> 'a world) option" where
  "run L [] s = Some s"
| "run L (c # cs) s = (case step L c s of None \<Rightarrow> None | Some s' \<Rightarrow> run L cs s')"

fun answer_ok :: "'a call \<Rightarrow> pmr_queue \<times> 'a world \<Rightarrow> bool" where
  "answer_ok (Push v r ctor_ok) s = new_ok (heap (snd s)) r"
| "answer_ok Pop s = True"

fun answers_ok :: "layout \<Rightarrow> 'a call list \<Rightarrow> pmr_queue \<times> 'a world \<Rightarrow> bool" where
  "answers_ok L [] s = True"
| "answers_ok L (c # cs) s =
     (answer_ok c s \<and> (case step L c s of None \<Rightarrow> True | Some s' \<Rightarrow> answers_ok L cs s'))"

section \<open>Invariants\<close>

text \<open>
  The resource agrees with the system heap: the null address is not allocated, every
  record marked allocated is a block of the system heap with the recorded size and
  alignment, and no two records marked allocated have the same address.
\<close>

definition mr_ok :: "DynamicVectorMemoryResource \<Rightarrow> sysheap \<Rightarrow> bool" where
  "mr_ok mr h =
     (live h nullptr = None \<and>
      list_all (\<lambda>b. \<not> allocated b \<or> live h (ptr b) = Some (size_b b, alignment b)) (blocks_m mr) \<and>
      distinct (map ptr (filter allocated (blocks_m mr))))"

text \<open>
  \<open>walk m k p\<close> follows the \<^verbatim>\<open>next\<close> links from \<open>p\<close> and returns the nodes it visits if
  these are exactly \<open>k\<close> nodes before the null link.
\<close>

fun walk :: "(addr \<rightharpoonup> 'a QueueNode) \<Rightarrow> nat \<Rightarrow> addr \<Rightarrow> addr list option" where
  "walk m 0 p = (if p = nullptr then Some [] else None)"
| "walk m (Suc k) p =
     (case node_at m p of
        None \<Rightarrow> None
      | Some n \<Rightarrow> map_option ((#) p) (walk m k (next n)))"

text \<open>The invariant of the queue as the specification words it.\<close>

definition queue_inv :: "pmr_queue \<Rightarrow> (addr \<rightharpoonup> 'a QueueNode) \<Rightarrow> bool" where
  "queue_inv q m =
     (((size_m q = 0) = (head_m q = nullptr)) \<and>
      ((head_m q = nullptr) = (tail_m q = nullptr)) \<and>
      (if size_m q = 0 then True
       else (case walk m (unat (size_m q)) (head_m q) of
               None \<Rightarrow> False
             | Some ps \<Rightarrow> last ps = tail_m q)) \<and>
      (if tail_m q = nullptr then True
       else (case node_at m (tail_m q) of None \<Rightarrow> False | Some t \<Rightarrow> next t = nullptr)))"

text \<open>
  The nodes of the queue, head first: \<open>chain m p ps\<close> says that the links from \<open>p\<close> pass
  through the constructed nodes \<open>ps\<close> and end in the null link.
\<close>

fun chain :: "(addr \<rightharpoonup> 'a QueueNode) \<Rightarrow> addr \<Rightarrow> addr list \<Rightarrow> bool" where
  "chain m p [] = (p = nullptr)"
| "chain m p (a # as) =
     (p = a \<and> (case node_at m a of None \<Rightarrow> False | Some n \<Rightarrow> chain m (next n) as))"

text \<open>The record the resource keeps for the node at an address.\<close>

definition node_record :: "layout \<Rightarrow> bool \<Rightarrow> addr \<Rightarrow> BlockInfo" where
  "node_record L a p =
     \<lparr>ptr = p, size_b = sizeof_Node L, alignment = alignof_Node L, allocated = a\<rparr>"

text \<open>
  What ties a queue to the world it works on, for the proofs: the nodes \<open>ps\<close> of its
  chain, head first, are distinct and are blocks allocated in the system heap, they hold
  the values \<open>vs\<close>, the tail pointer is the last of them and the count is their number.
\<close>

definition q_inv :: "pmr_queue \<times> 'a world \<Rightarrow> addr list \<Rightarrow> 'a list \<Rightarrow> bool" where
  "q_inv s ps vs =
     (case s of (q, w) \<Rightarrow>
        chain (nodes w) (head_m q) ps \<and> distinct ps \<and>
        tail_m q = (if ps = [] then nullptr else last ps) \<and>
        size_m q = of_nat (length ps) \<and>
        list_all (\<lambda>a. live (heap w) a \<noteq> None) ps \<and>
        map (\<lambda>a. map_option value (nodes w a)) ps = map Some vs)"

definition state_ok :: "pmr_queue \<times> 'a world \<Rightarrow> bool" where
  "state_ok s = ((\<exists>ps vs. q_inv s ps vs) \<and> mr_ok (res (snd s)) (heap (snd s)))"

section \<open>Concrete states\<close>

text \<open>
  The states the examples start from: nothing allocated, a resource as its constructor
  leaves it, no node constructed; and the layout of a node holding an \<^verbatim>\<open>int\<close>.
\<close>

definition fresh_heap :: sysheap where
  "fresh_heap = \<lparr>live = Map.empty, deleted = []\<rparr>"

definition fresh_world :: "int world" where
  "fresh_world = \<lparr>heap = fresh_heap, res = DynamicVectorMemoryResource_ctor, nodes = Map.empty\<rparr>"

definition int_layout :: layout where
  "int_layout = \<lparr>sizeof_Node = 16, alignof_Node = 8\<rparr>"

text \<open>
  The test \<^verbatim>\<open>CleansUpOnDestruction\<close> allocates 100 bytes aligned to 8 and 200 bytes
  aligned to 16 and releases neither; the system is taken to answer with the addresses
  4096 and 8192.
\<close>

definition two_blocks_calls :: "mr_call list" where
  "two_blocks_calls = [Allocate (Some 4096) 100 8, Allocate (Some 8192) 200 16]"

definition two_blocks_mr :: DynamicVectorMemoryResource where
  "two_blocks_mr =
     \<lparr>blocks_m = [\<lparr>ptr = 4096, size_b = 100, alignment = 8, allocated = True\<rparr>,
                  \<lparr>ptr = 8192, size_b = 200, alignment = 16, allocated = True\<rparr>]\<rparr>"

definition two_blocks_heap :: sysheap where
  "two_blocks_heap = \<lparr>live = [4096 \<mapsto> (100, 8), 8192 \<mapsto> (200, 16)], deleted = []\<rparr>"

text \<open>
  The test \<^verbatim>\<open>AllocateDeallocateInt\<close> allocates an \<^verbatim>\<open>int\<close>, deallocates it and
  allocates an \<^verbatim>\<open>int\<close> again; its comment says that the second block need not be where
  the first was.  Here the system answers the second request with the address it has just
  got back.
\<close>

definition reuse_calls :: "mr_call list" where
  "reuse_calls = [Allocate (Some 4096) 4 4, Deallocate 4096 4 4, Allocate (Some 4096) 4 4]"

definition reuse_mr :: DynamicVectorMemoryResource where
  "reuse_mr =
     \<lparr>blocks_m = [\<lparr>ptr = 4096, size_b = 4, alignment = 4, allocated = False\<rparr>,
                  \<lparr>ptr = 4096, size_b = 4, alignment = 4, allocated = True\<rparr>]\<rparr>"

definition reuse_heap :: sysheap where
  "reuse_heap = \<lparr>live = [4096 \<mapsto> (4, 4)], deleted = [(4096, 4)]\<rparr>"

text \<open>
  The test \<^verbatim>\<open>WorksForInt\<close> pushes 1 to 5; the system is taken to answer with five
  addresses 16 bytes apart.  A mixed run of pushes and pops, one of them on the empty
  queue, one push whose allocation fails and one whose element cannot be constructed.
\<close>

definition five_pushes :: "(addr \<times> int) list" where
  "five_pushes = [(4096, 1), (4112, 2), (4128, 3), (4144, 4), (4160, 5)]"

definition mixed_calls :: "int call list" where
  "mixed_calls =
     [Pop, Push 10 (Some 4096) True, Push 20 (Some 4112) True, Pop, Push 30 None True,
      Push 40 (Some 4128) False, Push 50 (Some 4096) True, Pop]"

text \<open>
  A queue on a fresh resource pushes 7 and pops it; the world after that is \<open>used_world\<close>.
  A push of 8 for which the system hands out the same address again, and a pop, leave
  \<open>leak_world\<close>.
\<close>

definition first_round_trip :: "int call list" where
  "first_round_trip = [Push 7 (Some 4096) True, Pop]"

definition used_world :: "int world" where
  "used_world =
     \<lparr>heap = \<lparr>live = Map.empty, deleted = [(4096, 8)]\<rparr>,
      res = \<lparr>blocks_m = [\<lparr>ptr = 4096, size_b = 16, alignment = 8, allocated = False\<rparr>]\<rparr>,
      nodes = Map.empty\<rparr>"

definition leak_world :: "int world" where
  "leak_world =
     \<lparr>heap = \<lparr>live = [4096 \<mapsto> (16, 8)], deleted = [(4096, 8)]\<rparr>,
      res = \<lparr>blocks_m = [\<lparr>ptr = 4096, size_b = 16, alignment = 8, allocated = False\<rparr>,
                         \<lparr>ptr = 4096, size_b = 16, alignment = 8, allocated = True\<rparr>]\<rparr>,
      nodes = Map.empty\<rparr>"

section \<open>Lists and lookups\<close>

text \<open>What \<open>find_if\<close> returns, and lists whose selected elements have distinct keys.\<close>

lemma find_if_Some:
  "find_if P xs = Some i \<Longrightarrow> i < length xs \<and> P (xs ! i) \<and> (\<forall>j<i. \<not> P (xs ! j))"
proof (induction xs arbitrary: i)
  case Nil
  then show ?case by simp
next
  case (Cons x xs)
  show ?case
  proof (cases "P x")
    case True
    with Cons.prems show ?thesis by simp
  next
    case False
    with Cons.prems obtain k where k: "find_if P xs = Some k" "i = Suc k" by auto
    from Cons.IH [OF k(1)] False k(2) show ?thesis
      by (auto simp: less_Suc_eq_0_disj)
  qed
qed

lemma find_if_None: "(find_if P xs = None) = (\<forall>x\<in>set xs. \<not> P x)"
  by (induction xs) auto

lemma distinct_map_filter_hd:
  "distinct (map f (filter P (x # xs))) \<Longrightarrow> P x \<Longrightarrow> k < length xs \<Longrightarrow> P (xs ! k)
     \<Longrightarrow> f x \<noteq> f (xs ! k)"
proof -
  assume d: "distinct (map f (filter P (x # xs)))" and x: "P x" and k: "k < length xs" "P (xs ! k)"
  from k have "xs ! k \<in> set (filter P xs)" by simp
  then have "f (xs ! k) \<in> f ` set (filter P xs)" by (rule imageI)
  moreover from d x have "f x \<notin> f ` set (filter P xs)" by simp
  ultimately show ?thesis by metis
qed

lemma distinct_map_filter_nth:
  "distinct (map f (filter P xs)) \<Longrightarrow> i < length xs \<Longrightarrow> j < length xs \<Longrightarrow> i \<noteq> j
     \<Longrightarrow> P (xs ! i) \<Longrightarrow> P (xs ! j) \<Longrightarrow> f (xs ! i) \<noteq> f (xs ! j)"
proof (induction xs arbitrary: i j)
  case Nil
  then show ?case by simp
next
  case (Cons x xs)
  show ?case
  proof (cases i)
    case 0
    then obtain j' where j': "j = Suc j'" using Cons.prems(4) by (cases j) auto
    with Cons.prems 0 distinct_map_filter_hd [of f P x xs j'] show ?thesis by simp
  next
    case (Suc i')
    show ?thesis
    proof (cases j)
      case 0
      with Cons.prems Suc distinct_map_filter_hd [of f P x xs i'] show ?thesis by simp
    next
      case (Suc j')
      with Cons.prems \<open>i = Suc i'\<close> Cons.IH [of i' j'] show ?thesis
        by (auto split: if_splits)
    qed
  qed
qed

lemma filter_update_subset:
  "\<not> P y \<Longrightarrow> set (filter P (xs[i := y])) \<subseteq> set (filter P xs)"
  using set_update_subset_insert [of xs i y] by auto

lemma distinct_map_filter_update:
  "\<not> P y \<Longrightarrow> distinct (map f (filter P xs)) \<Longrightarrow> distinct (map f (filter P (xs[i := y])))"
proof (induction xs arbitrary: i)
  case Nil
  then show ?case by simp
next
  case (Cons x xs)
  show ?case
  proof (cases i)
    case 0
    with Cons.prems show ?thesis by (simp split: if_splits)
  next
    case (Suc k)
    from Cons.prems have d: "distinct (map f (filter P xs))" by (simp split: if_splits)
    from Cons.IH [OF Cons.prems(1) d] have IH: "distinct (map f (filter P (xs[k := y])))" .
    show ?thesis
    proof (cases "P x")
      case True
      with Cons.prems have "f x \<notin> f ` set (filter P xs)" by simp
      with filter_update_subset [of P y xs k] Cons.prems(1)
      have "f x \<notin> f ` set (filter P (xs[k := y]))" by blast
      with IH True Suc show ?thesis by simp
    next
      case False
      with IH Suc show ?thesis by simp
    qed
  qed
qed

lemma find_if_update:
  "i < length xs \<Longrightarrow> P y = P (xs ! i) \<Longrightarrow> find_if P (xs[i := y]) = find_if P xs"
proof (induction xs arbitrary: i)
  case Nil
  then show ?case by simp
next
  case (Cons x xs)
  then show ?case by (cases i) simp_all
qed

lemma find_if_append_first:
  "\<forall>x\<in>set ds. \<not> P x \<Longrightarrow> P y \<Longrightarrow> find_if P (ds @ y # rest) = Some (length ds)"
  by (induction ds) simp_all

section \<open>The resource and the system heap\<close>

text \<open>
  What one allocation and one deallocation do to the records and to the system heap, and
  that they keep the resource in agreement with the system heap.
\<close>

lemma do_allocate_None: "do_allocate (mr, h) None bytes al = Throws bad_alloc (mr, h)"
  by (simp add: do_allocate_def operator_new_def)

lemma do_allocate_Some:
  "do_allocate (mr, h) (Some p) bytes al =
     Returns p (mr\<lparr>blocks_m := blocks_m mr @
                    [\<lparr>ptr = p, size_b = bytes, alignment = al, allocated = True\<rparr>]\<rparr>,
                h\<lparr>live := (live h)(p \<mapsto> (bytes, al))\<rparr>)"
  by (simp add: do_allocate_def operator_new_def)

lemma mr_ok_allocate:
  assumes "mr_ok mr h" and "p \<noteq> nullptr" and "live h p = None"
  shows "mr_ok (mr\<lparr>blocks_m := blocks_m mr @
                    [\<lparr>ptr = p, size_b = bytes, alignment = al, allocated = True\<rparr>]\<rparr>)
               (h\<lparr>live := (live h)(p \<mapsto> (bytes, al))\<rparr>)"
  using assms by (auto simp: mr_ok_def list_all_iff)

lemma do_deallocate_not_found:
  "find_block mr p = None \<Longrightarrow> do_deallocate (mr, h) p bytes al = Returns () (mr, h)"
  by (simp add: do_deallocate_def)

lemma do_deallocate_not_live:
  "find_block mr p = Some i \<Longrightarrow> \<not> allocated (blocks_m mr ! i)
     \<Longrightarrow> do_deallocate (mr, h) p bytes al = Returns () (mr, h)"
  by (simp add: do_deallocate_def)

lemma do_deallocate_live:
  assumes "find_block mr p = Some i" and "allocated (blocks_m mr ! i)" and "mr_ok mr h"
  shows "do_deallocate (mr, h) p bytes al =
           Returns () (mr\<lparr>blocks_m := (blocks_m mr)[i := (blocks_m mr ! i)\<lparr>allocated := False\<rparr>]\<rparr>,
                       h\<lparr>live := (live h)(p := None),
                         deleted := deleted h @ [(p, alignment (blocks_m mr ! i))]\<rparr>)"
proof -
  from assms(1) have i: "i < length (blocks_m mr)" "ptr (blocks_m mr ! i) = p"
    using find_if_Some [of "\<lambda>b. ptr b = p" "blocks_m mr" i] by (simp_all add: find_block_def)
  with assms(2,3) have l: "live h p = Some (size_b (blocks_m mr ! i), alignment (blocks_m mr ! i))"
    by (auto simp: mr_ok_def list_all_length)
  with assms(3) have "p \<noteq> nullptr" by (auto simp: mr_ok_def)
  with l assms(1,2) show ?thesis
    by (simp add: do_deallocate_def operator_delete_def)
qed

lemma mr_ok_deallocate:
  assumes "find_block mr p = Some i" and "allocated (blocks_m mr ! i)" and "mr_ok mr h"
  shows "mr_ok (mr\<lparr>blocks_m := (blocks_m mr)[i := (blocks_m mr ! i)\<lparr>allocated := False\<rparr>]\<rparr>)
               (h\<lparr>live := (live h)(p := None), deleted := deleted h @ [(p, al')]\<rparr>)"
proof -
  let ?bs = "blocks_m mr"
  from assms(1) have i: "i < length ?bs" "ptr (?bs ! i) = p"
    using find_if_Some [of "\<lambda>b. ptr b = p" ?bs i] by (simp_all add: find_block_def)
  from assms(3) have d: "distinct (map ptr (filter allocated ?bs))" by (simp add: mr_ok_def)
  have "\<not> allocated (?bs[i := (?bs ! i)\<lparr>allocated := False\<rparr>] ! j) \<or>
        ((live h)(p := None)) (ptr (?bs[i := (?bs ! i)\<lparr>allocated := False\<rparr>] ! j))
          = Some (size_b (?bs[i := (?bs ! i)\<lparr>allocated := False\<rparr>] ! j),
                  alignment (?bs[i := (?bs ! i)\<lparr>allocated := False\<rparr>] ! j))"
    if j: "j < length ?bs" for j
  proof (cases "j = i")
    case True
    with i show ?thesis by simp
  next
    case False
    show ?thesis
    proof (cases "allocated (?bs ! j)")
      case True
      from distinct_map_filter_nth [OF d j i(1) False True assms(2)] i(2)
      have "ptr (?bs ! j) \<noteq> p" by simp
      with assms(3) j True False show ?thesis by (auto simp: mr_ok_def list_all_length)
    next
      case no: False
      with False show ?thesis by simp
    qed
  qed
  moreover have "distinct (map ptr (filter allocated (?bs[i := (?bs ! i)\<lparr>allocated := False\<rparr>])))"
    by (rule distinct_map_filter_update [OF _ d]) simp
  ultimately show ?thesis using assms(3) by (simp add: mr_ok_def list_all_length)
qed

lemma do_deallocate_args:
  "do_deallocate s p bytes' al' = do_deallocate s p bytes al"
  by (simp add: do_deallocate_def)

lemma do_deallocate_ok:
  assumes "mr_ok mr h"
  shows "\<exists>mr' h'. do_deallocate (mr, h) p bytes al = Returns () (mr', h') \<and> mr_ok mr' h' \<and>
           (\<forall>a. a \<noteq> p \<longrightarrow> live h' a = live h a)"
proof (cases "find_block mr p")
  case None
  with assms show ?thesis by (simp add: do_deallocate_not_found)
next
  case (Some i)
  show ?thesis
  proof (cases "allocated (blocks_m mr ! i)")
    case True
    from do_deallocate_live [OF Some True assms] mr_ok_deallocate [OF Some True assms]
    show ?thesis by simp
  next
    case False
    with Some assms show ?thesis by (simp add: do_deallocate_not_live)
  qed
qed

lemma release_blocks_ok:
  assumes "live h nullptr = None"
    and "list_all (\<lambda>b. \<not> allocated b \<or> live h (ptr b) = Some (size_b b, alignment b)) bs"
    and "distinct (map ptr (filter allocated bs))"
  shows "\<exists>h'. release_blocks bs h = Returns () h' \<and>
           deleted h' = deleted h @ map (\<lambda>b. (ptr b, alignment b)) (filter allocated bs) \<and>
           (\<forall>a. live h' a = (if a \<in> ptr ` set (filter allocated bs) then None else live h a))"
  using assms
proof (induction bs arbitrary: h)
  case Nil
  then show ?case by simp
next
  case (Cons b bs)
  show ?case
  proof (cases "allocated b")
    case False
    with Cons.prems Cons.IH [of h] show ?thesis by simp
  next
    case True
    let ?h = "h\<lparr>live := (live h)(ptr b := None), deleted := deleted h @ [(ptr b, alignment b)]\<rparr>"
    from Cons.prems True have l: "live h (ptr b) = Some (size_b b, alignment b)" by simp
    with Cons.prems(1) have nz: "ptr b \<noteq> nullptr" by auto
    from l nz have del: "operator_delete h (ptr b) (alignment b) = Returns () ?h"
      by (simp add: operator_delete_def)
    from Cons.prems(3) True have nb: "ptr b \<notin> ptr ` set (filter allocated bs)" by simp
    have "list_all (\<lambda>c. \<not> allocated c \<or> live ?h (ptr c) = Some (size_b c, alignment c)) bs"
      unfolding list_all_iff
    proof
      fix c assume c: "c \<in> set bs"
      with Cons.prems(2) have "\<not> allocated c \<or> live h (ptr c) = Some (size_b c, alignment c)"
        by (simp add: list_all_iff)
      moreover have "ptr c \<noteq> ptr b" if "allocated c"
      proof
        assume "ptr c = ptr b"
        moreover from c that have "c \<in> set (filter allocated bs)" by simp
        ultimately have "ptr b \<in> ptr ` set (filter allocated bs)" by (metis imageI)
        with nb show False by simp
      qed
      ultimately show "\<not> allocated c \<or> live ?h (ptr c) = Some (size_b c, alignment c)"
        by auto
    qed
    moreover from Cons.prems(1) nz have "live ?h nullptr = None" by simp
    moreover from Cons.prems(3) True have "distinct (map ptr (filter allocated bs))" by simp
    ultimately obtain h' where h': "release_blocks bs ?h = Returns () h'"
      "deleted h' = deleted ?h @ map (\<lambda>b. (ptr b, alignment b)) (filter allocated bs)"
      "\<forall>a. live h' a = (if a \<in> ptr ` set (filter allocated bs) then None else live ?h a)"
      using Cons.IH [of ?h] by blast
    from h'(1) del True have "release_blocks (b # bs) h = Returns () h'" by simp
    moreover from h'(2) True
    have "deleted h' = deleted h @ map (\<lambda>b. (ptr b, alignment b)) (filter allocated (b # bs))"
      by simp
    moreover from h'(3) True
    have "\<forall>a. live h' a = (if a \<in> ptr ` set (filter allocated (b # bs)) then None else live h a)"
      by auto
    ultimately show ?thesis by blast
  qed
qed

lemma mr_step_ok:
  assumes "mr_ok (fst s) (snd s)" and "mr_answer_ok c s"
  shows "\<exists>s'. mr_step c s = Some s' \<and> mr_ok (fst s') (snd s')"
proof (cases c)
  case (Allocate r bytes al)
  show ?thesis
  proof (cases r)
    case None
    with Allocate assms show ?thesis
      by (cases s) (simp add: do_allocate_None)
  next
    case (Some p)
    with Allocate assms show ?thesis
      by (cases s) (simp add: do_allocate_Some new_ok_def mr_ok_allocate)
  qed
next
  case (Deallocate p bytes al)
  obtain mr h where s: "s = (mr, h)" by (cases s)
  with assms do_deallocate_ok [of mr h p bytes al] Deallocate show ?thesis by auto
qed

lemma mr_run_ok:
  "mr_ok (fst s) (snd s) \<Longrightarrow> mr_answers_ok cs s
     \<Longrightarrow> \<exists>s'. mr_run cs s = Some s' \<and> mr_ok (fst s') (snd s')"
proof (induction cs arbitrary: s)
  case Nil
  then show ?case by simp
next
  case (Cons c cs)
  from Cons.prems mr_step_ok [of s c] obtain s1 where
    s1: "mr_step c s = Some s1" "mr_ok (fst s1) (snd s1)" by auto
  with Cons.prems Cons.IH [of s1] show ?case by simp
qed

lemma mr_ok_fresh: "mr_ok DynamicVectorMemoryResource_ctor fresh_heap"
  by (simp add: mr_ok_def DynamicVectorMemoryResource_ctor_def fresh_heap_def)

lemma allocate_fresh_address:
  assumes "mr_ok mr h" and "new_ok h (Some p)"
  shows "p \<noteq> nullptr \<and> p \<notin> ptr ` set (filter allocated (blocks_m mr))"
  using assms by (auto simp: mr_ok_def new_ok_def list_all_iff)

text \<open>The two blocks of \<^verbatim>\<open>CleansUpOnDestruction\<close> are what its two calls leave.\<close>

lemma two_blocks_reached:
  "mr_answers_ok two_blocks_calls (DynamicVectorMemoryResource_ctor, fresh_heap) \<and>
   mr_run two_blocks_calls (DynamicVectorMemoryResource_ctor, fresh_heap)
     = Some (two_blocks_mr, two_blocks_heap)"
  by (simp add: two_blocks_calls_def two_blocks_mr_def two_blocks_heap_def fresh_heap_def
      DynamicVectorMemoryResource_ctor_def do_allocate_def operator_new_def new_ok_def
      nullptr_def)

section \<open>Deallocation\<close>

text \<open>
  What one deallocation does, in terms of the lookup.  In a resource that agrees with the
  system heap, \<^verbatim>\<open>deallocate(p, bytes, al)\<close> always returns.  If \<open>find_block\<close> finds a
  record, the first with that address, and it is marked allocated, one block is released,
  at \<open>p\<close> and with the alignment of the record and not the argument \<open>al\<close>, and the
  records afterwards are the records before with that one marked not allocated.  If no
  record is found, or the record found is not marked allocated, neither the records nor
  the system heap change.  The arguments \<open>bytes\<close> and \<open>al\<close> have no influence, the same
  call made again changes nothing, and the resource still agrees with the system heap.
\<close>

lemma do_deallocate_behaviour:
  assumes "mr_ok mr h"
  shows "\<exists>mr' h'. do_deallocate (mr, h) p bytes al = Returns () (mr', h') \<and>
           (case find_block mr p of
              None \<Rightarrow> mr' = mr \<and> h' = h
            | Some i \<Rightarrow>
                if allocated (blocks_m mr ! i)
                then deleted h' = deleted h @ [(p, alignment (blocks_m mr ! i))] \<and>
                     live h' = (live h)(p := None) \<and>
                     blocks_m mr' = (blocks_m mr)[i := (blocks_m mr ! i)\<lparr>allocated := False\<rparr>]
                else mr' = mr \<and> h' = h) \<and>
           do_deallocate (mr, h) p bytes2 al2 = Returns () (mr', h') \<and>
           do_deallocate (mr', h') p bytes3 al3 = Returns () (mr', h') \<and>
           mr_ok mr' h'"
proof (cases "find_block mr p")
  case None
  with assms show ?thesis by (simp add: do_deallocate_not_found)
next
  case (Some i)
  show ?thesis
  proof (cases "allocated (blocks_m mr ! i)")
    case False
    with Some assms show ?thesis by (simp add: do_deallocate_not_live)
  next
    case True
    let ?mr = "mr\<lparr>blocks_m := (blocks_m mr)[i := (blocks_m mr ! i)\<lparr>allocated := False\<rparr>]\<rparr>"
    let ?h = "h\<lparr>live := (live h)(p := None), deleted := deleted h @ [(p, alignment (blocks_m mr ! i))]\<rparr>"
    from Some have i: "i < length (blocks_m mr)"
      using find_if_Some [of "\<lambda>b. ptr b = p" "blocks_m mr" i] by (simp add: find_block_def)
    then have "find_block ?mr p = Some i"
      using Some by (simp add: find_block_def find_if_update)
    moreover from i have "\<not> allocated (blocks_m ?mr ! i)" by simp
    ultimately have again: "do_deallocate (?mr, ?h) p bytes3 al3 = Returns () (?mr, ?h)"
      by (rule do_deallocate_not_live)
    from do_deallocate_live [OF Some True assms] mr_ok_deallocate [OF Some True assms] again
      Some True
    show ?thesis by simp
  qed
qed

text \<open>
  An instance: of the two blocks of \<^verbatim>\<open>CleansUpOnDestruction\<close> the second is
  deallocated, with alignment 4 passed where 16 was recorded.
\<close>

lemma do_deallocate_behaviour_example:
  "mr_ok two_blocks_mr two_blocks_heap \<and>
   do_deallocate (two_blocks_mr, two_blocks_heap) 8192 200 4 =
     Returns ()
       (\<lparr>blocks_m = [\<lparr>ptr = 4096, size_b = 100, alignment = 8, allocated = True\<rparr>,
                    \<lparr>ptr = 8192, size_b = 200, alignment = 16, allocated = False\<rparr>]\<rparr>,
        \<lparr>live = [4096 \<mapsto> (100, 8)], deleted = [(8192, 16)]\<rparr>)"
proof -
  have ok: "mr_ok two_blocks_mr two_blocks_heap"
    by (simp add: mr_ok_def two_blocks_mr_def two_blocks_heap_def nullptr_def)
  have f: "find_block two_blocks_mr 8192 = Some 1"
    by (simp add: find_block_def two_blocks_mr_def)
  from do_deallocate_behaviour [OF ok, of 8192 200 4 200 4 200 4] f
  obtain mr' h' where r: "do_deallocate (two_blocks_mr, two_blocks_heap) 8192 200 4 = Returns () (mr', h')"
    "deleted h' = deleted two_blocks_heap @ [(8192, alignment (blocks_m two_blocks_mr ! 1))]"
    "live h' = (live two_blocks_heap)(8192 := None)"
    "blocks_m mr' = (blocks_m two_blocks_mr)[1 := (blocks_m two_blocks_mr ! 1)\<lparr>allocated := False\<rparr>]"
    by (auto simp: two_blocks_mr_def)
  from r(2,3,4) have "mr' = \<lparr>blocks_m = [\<lparr>ptr = 4096, size_b = 100, alignment = 8, allocated = True\<rparr>,
                    \<lparr>ptr = 8192, size_b = 200, alignment = 16, allocated = False\<rparr>]\<rparr>"
    "h' = \<lparr>live = [4096 \<mapsto> (100, 8)], deleted = [(8192, 16)]\<rparr>"
    by (simp_all add: two_blocks_mr_def two_blocks_heap_def)
  with r(1) ok show ?thesis by simp
qed

section \<open>Destruction of the resource\<close>

text \<open>
  C4.  In a resource that agrees with the system heap the destructor returns, and what it
  releases is one block for every record marked allocated, in the order of the records
  and each with its recorded alignment, and nothing else; these addresses are distinct,
  so no block is released twice, and afterwards none of them is allocated in the system
  heap.  The number of such records is arbitrary.
\<close>

theorem dtor_releases_live_blocks_once:
  assumes "mr_ok mr h"
  shows "\<exists>h'. DynamicVectorMemoryResource_dtor mr h = Returns () h' \<and>
           deleted h' = deleted h @ map (\<lambda>b. (ptr b, alignment b)) (filter allocated (blocks_m mr)) \<and>
           distinct (map ptr (filter allocated (blocks_m mr))) \<and>
           (\<forall>a. live h' a = (if a \<in> ptr ` set (filter allocated (blocks_m mr)) then None else live h a))"
  using assms release_blocks_ok [of h "blocks_m mr"]
  by (simp add: mr_ok_def DynamicVectorMemoryResource_dtor_def)

theorem dtor_releases_live_blocks_once_witness:
  "mr_ok two_blocks_mr two_blocks_heap \<and>
   DynamicVectorMemoryResource_dtor two_blocks_mr two_blocks_heap =
     Returns () \<lparr>live = Map.empty, deleted = [(4096, 8), (8192, 16)]\<rparr>"
proof -
  have ok: "mr_ok two_blocks_mr two_blocks_heap"
    by (simp add: mr_ok_def two_blocks_mr_def two_blocks_heap_def nullptr_def)
  from dtor_releases_live_blocks_once [OF ok]
  obtain h' where r: "DynamicVectorMemoryResource_dtor two_blocks_mr two_blocks_heap = Returns () h'"
    "deleted h' = deleted two_blocks_heap @
       map (\<lambda>b. (ptr b, alignment b)) (filter allocated (blocks_m two_blocks_mr))"
    "\<forall>a. live h' a =
       (if a \<in> ptr ` set (filter allocated (blocks_m two_blocks_mr)) then None
        else live two_blocks_heap a)"
    by blast
  from r(3) have "live h' = Map.empty"
    by (auto simp: fun_eq_iff two_blocks_mr_def two_blocks_heap_def)
  moreover from r(2) have "deleted h' = [(4096, 8), (8192, 16)]"
    by (simp add: two_blocks_mr_def two_blocks_heap_def)
  ultimately have "h' = \<lparr>live = Map.empty, deleted = [(4096, 8), (8192, 16)]\<rparr>" by simp
  with r(1) ok show ?thesis by simp
qed

section \<open>An address the system hands out again\<close>

text \<open>
  C6 fails on the code.  The calls of the test \<^verbatim>\<open>AllocateDeallocateInt\<close>, with the
  system handing out for the second allocation the address it got back, keep every
  promise of \<^verbatim>\<open>operator new\<close> and leave two records with the address 4096: the first
  marked not allocated, the second marked allocated.  The lookup finds the first, so the
  deallocation of the block in use, which the test makes next, releases nothing and
  changes nothing.
\<close>

theorem reused_address_lookup_finds_stale_record:
  "mr_answers_ok reuse_calls (DynamicVectorMemoryResource_ctor, fresh_heap) \<and>
   mr_run reuse_calls (DynamicVectorMemoryResource_ctor, fresh_heap) = Some (reuse_mr, reuse_heap) \<and>
   find_block reuse_mr 4096 = Some 0 \<and>
   allocated (blocks_m reuse_mr ! 1) \<and> ptr (blocks_m reuse_mr ! 1) = 4096 \<and>
   do_deallocate (reuse_mr, reuse_heap) 4096 4 4 = Returns () (reuse_mr, reuse_heap)"
  by (simp add: reuse_calls_def reuse_mr_def reuse_heap_def fresh_heap_def
      DynamicVectorMemoryResource_ctor_def do_allocate_def do_deallocate_def operator_new_def
      operator_delete_def find_block_def new_ok_def nullptr_def)

text \<open>The state with the two records agrees with the system heap.\<close>

lemma mr_ok_reuse: "mr_ok reuse_mr reuse_heap"
  by (simp add: mr_ok_def reuse_mr_def reuse_heap_def nullptr_def)

text \<open>
  C5 fails on the code, by the same defect.  After the calls of
  \<^verbatim>\<open>AllocateDeallocateInt\<close> with the address handed out again, a record for the address
  4096 exists that is marked allocated (the second), and its block is allocated in the
  system heap.  The deallocation of 4096 nevertheless releases nothing: the log of
  released blocks and the system heap are as before, and the record is still marked
  allocated, because the lookup stops at the first record for the address, which is
  marked not allocated.
\<close>

theorem deallocate_skips_live_record_behind_stale_record:
  "mr_answers_ok reuse_calls (DynamicVectorMemoryResource_ctor, fresh_heap) \<and>
   mr_run (reuse_calls @ [Deallocate 4096 4 4]) (DynamicVectorMemoryResource_ctor, fresh_heap)
     = mr_run reuse_calls (DynamicVectorMemoryResource_ctor, fresh_heap) \<and>
   mr_run (reuse_calls @ [Deallocate 4096 4 4]) (DynamicVectorMemoryResource_ctor, fresh_heap)
     = Some (reuse_mr, reuse_heap) \<and>
   blocks_m reuse_mr ! 1 = \<lparr>ptr = 4096, size_b = 4, alignment = 4, allocated = True\<rparr> \<and>
   live reuse_heap 4096 = Some (4, 4) \<and>
   deleted reuse_heap = [(4096, 4)]"
  by (simp add: reuse_calls_def reuse_mr_def reuse_heap_def fresh_heap_def
      DynamicVectorMemoryResource_ctor_def do_allocate_def do_deallocate_def operator_new_def
      operator_delete_def find_block_def new_ok_def nullptr_def)

section \<open>Chains of nodes\<close>

text \<open>
  How a chain behaves when the node memory changes outside it or a node is linked behind
  its last node, what a walk and the client's loop see of a chain, and why the count
  cannot wrap: the nodes are distinct non-null 64-bit addresses.
\<close>

lemma node_at_upd_other: "a \<noteq> b \<Longrightarrow> node_at (m(a := x)) b = node_at m b"
  by (simp add: node_at_def)

lemma node_at_upd_same: "a \<noteq> nullptr \<Longrightarrow> node_at (m(a \<mapsto> n)) a = Some n"
  by (simp add: node_at_def)

lemma node_at_Some: "node_at m a = Some n \<Longrightarrow> a \<noteq> nullptr \<and> m a = Some n"
  by (simp add: node_at_def split: if_splits)

lemma chain_not_null: "chain m p ps \<Longrightarrow> nullptr \<notin> set ps"
  by (induction ps arbitrary: p) (auto simp: node_at_def split: option.splits if_splits)

lemma chain_head_null: "chain m p ps \<Longrightarrow> (p = nullptr) = (ps = [])"
  by (cases ps) (auto simp: node_at_def split: option.splits if_splits)

lemma chain_upd: "a \<notin> set ps \<Longrightarrow> chain (m(a := x)) p ps = chain m p ps"
  by (induction ps arbitrary: p) (auto simp: node_at_upd_other split: option.splits)

lemma chain_last:
  "chain m p ps \<Longrightarrow> ps \<noteq> [] \<Longrightarrow> \<exists>t. node_at m (last ps) = Some t \<and> next t = nullptr"
proof (induction ps arbitrary: p)
  case Nil
  then show ?case by simp
next
  case (Cons a as)
  from Cons.prems(1) obtain n where n: "node_at m a = Some n" "chain m (next n) as"
    by (auto split: option.splits)
  show ?case
  proof (cases "as = []")
    case True
    with n show ?thesis by simp
  next
    case False
    with Cons.IH [OF n(2)] show ?thesis by simp
  qed
qed

lemma chain_snoc:
  assumes "chain m p ps" and "ps \<noteq> []" and "distinct ps" and "new \<notin> set ps"
    and "new \<noteq> nullptr" and "node_at m (last ps) = Some t"
  shows "chain (m(new \<mapsto> \<lparr>value = v, next = nullptr\<rparr>, last ps \<mapsto> t\<lparr>next := new\<rparr>)) p (ps @ [new])"
  using assms
proof (induction ps arbitrary: p)
  case Nil
  then show ?case by simp
next
  case (Cons a as)
  from Cons.prems(1) obtain n where n: "p = a" "node_at m a = Some n" "chain m (next n) as"
    by (auto split: option.splits)
  from n(2) have a0: "a \<noteq> nullptr" by (simp add: node_at_def split: if_splits)
  show ?case
  proof (cases "as = []")
    case True
    with Cons.prems n have t: "t = n" and nn: "next n = nullptr" by simp_all
    from Cons.prems(4) have na: "new \<noteq> a" by simp
    from True t nn na a0 Cons.prems(5) n(1) show ?thesis
      by (simp add: node_at_def)
  next
    case False
    with Cons.prems(3) have al: "a \<noteq> last as" by auto
    from Cons.prems(4) have na: "new \<noteq> a" by simp
    from Cons.prems(3) have das: "distinct as" by simp
    from Cons.prems(4) have nas: "new \<notin> set as" by simp
    from Cons.prems(6) False have las: "node_at m (last as) = Some t" by simp
    note Cons.IH [OF n(3) False das nas Cons.prems(5) las]
    moreover have "node_at (m(new \<mapsto> \<lparr>value = v, next = nullptr\<rparr>, last as \<mapsto> t\<lparr>next := new\<rparr>)) a
        = Some n"
      using al na n(2) by (simp add: node_at_upd_other)
    ultimately have "chain (m(new \<mapsto> \<lparr>value = v, next = nullptr\<rparr>, last as \<mapsto> t\<lparr>next := new\<rparr>))
        p ((a # as) @ [new])"
      using n(1) by (simp del: fun_upd_apply)
    with False show ?thesis by (simp del: fun_upd_apply)
  qed
qed

lemma chain_walk: "chain m p ps \<Longrightarrow> walk m (length ps) p = Some ps"
proof (induction ps arbitrary: p)
  case Nil
  then show ?case by simp
next
  case (Cons a as)
  then show ?case by (auto split: option.splits)
qed

lemma iterate_chain:
  "chain m p ps \<Longrightarrow> map (\<lambda>a. map_option value (m a)) ps = map Some vs
     \<Longrightarrow> iterate (Suc (length ps) + k) m (QueueIterator_ctor p) (QueueIterator_ctor nullptr) actual
           = Some (Returns (actual @ vs) ())"
proof (induction ps arbitrary: p vs actual)
  case Nil
  then show ?case by (simp add: operator_ne_def operator_eq_def QueueIterator_ctor_def)
next
  case (Cons a as)
  from Cons.prems(1) obtain n where n: "p = a" "node_at m a = Some n" "chain m (next n) as"
    by (auto split: option.splits)
  from n(2) have a0: "a \<noteq> nullptr" and ma: "m a = Some n"
    by (simp_all add: node_at_def split: if_splits)
  from Cons.prems(2) ma obtain ws where ws: "vs = value n # ws"
    "map (\<lambda>a. map_option value (m a)) as = map Some ws"
    by (cases vs) auto
  from Cons.IH [OF n(3) ws(2), of "actual @ [value n]"]
  have "iterate (Suc (length as) + k) m (QueueIterator_ctor (next n)) (QueueIterator_ctor nullptr)
          (actual @ [value n]) = Some (Returns (actual @ vs) ())"
    using ws(1) by simp
  with n(1,2) a0 show ?case
    by (simp add: operator_ne_def operator_eq_def QueueIterator_ctor_def operator_star_def
        operator_preinc_def)
qed

lemma length_addrs_bound:
  fixes ps :: "addr list"
  assumes "distinct ps" and "nullptr \<notin> set ps"
  shows "length ps < 2 ^ 64"
proof -
  from assms(2) have "set ps \<subseteq> UNIV - {0}" by (auto simp: nullptr_def)
  then have "card (set ps) \<le> card (UNIV - {0 :: 64 word})" by (intro card_mono) auto
  also have "\<dots> = 2 ^ 64 - 1" by (simp add: card_Diff_singleton card_word)
  finally show ?thesis using assms(1) by (simp add: distinct_card)
qed

lemma q_inv_queue_inv:
  assumes "q_inv (q, w) ps vs"
  shows "queue_inv q (nodes w)"
proof -
  from assms have c: "chain (nodes w) (head_m q) ps" and d: "distinct ps"
    and t: "tail_m q = (if ps = [] then nullptr else last ps)"
    and s: "size_m q = of_nat (length ps)"
    by (simp_all add: q_inv_def)
  from c have nn: "nullptr \<notin> set ps" by (rule chain_not_null)
  from length_addrs_bound [OF d nn] have u: "unat (size_m q) = length ps"
    using s by (simp add: unat_of_nat)
  then have z: "(size_m q = 0) = (ps = [])" by (metis length_0_conv unat_eq_0)
  from c have h: "(head_m q = nullptr) = (ps = [])" by (rule chain_head_null)
  have tl: "(tail_m q = nullptr) = (ps = [])"
  proof (cases "ps = []")
    case True
    with t show ?thesis by simp
  next
    case False
    then have "last ps \<in> set ps" by simp
    with nn have "last ps \<noteq> nullptr" by metis
    with t False show ?thesis by simp
  qed
  show ?thesis
  proof (cases "ps = []")
    case True
    with z h tl show ?thesis by (simp add: queue_inv_def)
  next
    case False
    from chain_last [OF c False] obtain tn where
      "node_at (nodes w) (last ps) = Some tn" "next tn = nullptr" by blast
    with False z h tl t u chain_walk [OF c] show ?thesis
      by (simp add: queue_inv_def)
  qed
qed

lemma q_inv_ctor: "q_inv (pmr_queue_ctor, w) [] []"
  by (simp add: q_inv_def pmr_queue_ctor_def)

section \<open>One push, one pop, and runs of them\<close>

lemma push_returns:
  assumes inv: "q_inv (q, w) ps vs" and p0: "p \<noteq> nullptr" and fresh: "live (heap w) p = None"
  shows "\<exists>q' w'. push L v (Some p) True (q, w) = Returns () (q', w') \<and>
           q_inv (q', w') (ps @ [p]) (vs @ [v]) \<and>
           res w' = (res w)\<lparr>blocks_m := blocks_m (res w) @
               [\<lparr>ptr = p, size_b = sizeof_Node L, alignment = alignof_Node L, allocated = True\<rparr>]\<rparr> \<and>
           heap w' = (heap w)\<lparr>live := (live (heap w))(p \<mapsto> (sizeof_Node L, alignof_Node L))\<rparr>"
proof -
  let ?mr = "(res w)\<lparr>blocks_m := blocks_m (res w) @
               [\<lparr>ptr = p, size_b = sizeof_Node L, alignment = alignof_Node L, allocated = True\<rparr>]\<rparr>"
  let ?h = "(heap w)\<lparr>live := (live (heap w))(p \<mapsto> (sizeof_Node L, alignof_Node L))\<rparr>"
  let ?N = "\<lparr>value = v, next = nullptr\<rparr>"
  from inv have c: "chain (nodes w) (head_m q) ps" and d: "distinct ps"
    and t: "tail_m q = (if ps = [] then nullptr else last ps)"
    and s: "size_m q = of_nat (length ps)"
    and l: "list_all (\<lambda>a. live (heap w) a \<noteq> None) ps"
    and vals: "map (\<lambda>a. map_option value (nodes w a)) ps = map Some vs"
    by (simp_all add: q_inv_def)
  from l fresh have pn: "p \<notin> set ps" by (auto simp: list_all_iff)
  from c have nn: "nullptr \<notin> set ps" by (rule chain_not_null)
  have l': "list_all (\<lambda>a. live ?h a \<noteq> None) (ps @ [p])"
    using l by (simp add: list_all_iff)
  show ?thesis
  proof (cases "ps = []")
    case True
    let ?q = "q\<lparr>head_m := p, tail_m := p, size_m := size_m q + 1\<rparr>"
    let ?w = "w\<lparr>res := ?mr, heap := ?h, nodes := (nodes w)(p \<mapsto> ?N)\<rparr>"
    from True t have "push L v (Some p) True (q, w) = Returns () (?q, ?w)"
      by (simp add: push_def do_allocate_Some)
    moreover from True s vals p0 have "q_inv (?q, ?w) (ps @ [p]) (vs @ [v])"
      by (simp add: q_inv_def node_at_def)
    ultimately show ?thesis by simp
  next
    case False
    then have "last ps \<in> set ps" by simp
    with nn pn have tl0: "last ps \<noteq> nullptr" and tlp: "last ps \<noteq> p" by metis+
    from chain_last [OF c False] obtain tn where
      tn: "node_at (nodes w) (last ps) = Some tn" "next tn = nullptr" by blast
    let ?m = "(nodes w)(p \<mapsto> ?N, last ps \<mapsto> tn\<lparr>next := p\<rparr>)"
    let ?q = "q\<lparr>tail_m := p, size_m := size_m q + 1\<rparr>"
    let ?w = "w\<lparr>res := ?mr, heap := ?h, nodes := ?m\<rparr>"
    from tn(1) tlp have "node_at ((nodes w)(p \<mapsto> ?N)) (last ps) = Some tn"
      by (simp add: node_at_upd_other)
    with False t tl0 have r: "push L v (Some p) True (q, w) = Returns () (?q, ?w)"
      by (simp add: push_def do_allocate_Some)
    have ch: "chain ?m (head_m q) (ps @ [p])"
      by (rule chain_snoc [OF c False d pn p0 tn(1)])
    from tn(1) have mt: "nodes w (last ps) = Some tn" by (simp add: node_at_def split: if_splits)
    have "map_option value (?m a) = map_option value (nodes w a)" if "a \<in> set ps" for a
      using that pn mt by auto
    then have "map (\<lambda>a. map_option value (?m a)) ps = map (\<lambda>a. map_option value (nodes w a)) ps"
      by (intro map_cong) simp_all
    with vals tlp have v': "map (\<lambda>a. map_option value (?m a)) (ps @ [p]) = map Some (vs @ [v])"
      by simp
    from ch d pn s l' v' False have "q_inv (?q, ?w) (ps @ [p]) (vs @ [v])"
      by (simp add: q_inv_def del: fun_upd_apply)
    with r show ?thesis by simp
  qed
qed

lemma pop_returns:
  assumes inv: "q_inv (q, w) (a # ps) (v # vs)" and ok: "mr_ok (res w) (heap w)"
  shows "\<exists>q' w'. pop L (q, w) = Returns () (q', w') \<and> q_inv (q', w') ps vs \<and>
           mr_ok (res w') (heap w') \<and>
           do_deallocate (res w, heap w) a (sizeof_Node L) (alignof_Node L)
             = Returns () (res w', heap w')"
proof -
  from inv have c: "chain (nodes w) (head_m q) (a # ps)" and d: "distinct (a # ps)"
    and t: "tail_m q = last (a # ps)"
    and s: "size_m q = of_nat (length (a # ps))"
    and l: "list_all (\<lambda>a. live (heap w) a \<noteq> None) (a # ps)"
    and vals: "map (\<lambda>a. map_option value (nodes w a)) (a # ps) = map Some (v # vs)"
    by (simp_all add: q_inv_def)
  from c obtain n where n: "head_m q = a" "node_at (nodes w) a = Some n" "chain (nodes w) (next n) ps"
    by (auto split: option.splits)
  from n(2) have a0: "a \<noteq> nullptr" by (simp add: node_at_def split: if_splits)
  from d have aps: "a \<notin> set ps" by simp
  from do_deallocate_ok [OF ok, of a "sizeof_Node L" "alignof_Node L"] obtain mr' h' where
    dd: "do_deallocate (res w, heap w) a (sizeof_Node L) (alignof_Node L) = Returns () (mr', h')"
    and ok': "mr_ok mr' h'" and same: "\<forall>x. x \<noteq> a \<longrightarrow> live h' x = live (heap w) x"
    by blast
  let ?q1 = "q\<lparr>head_m := next n\<rparr>"
  let ?q2 = "if next n = nullptr then ?q1\<lparr>tail_m := nullptr\<rparr> else ?q1"
  let ?q = "?q2\<lparr>size_m := size_m ?q2 - 1\<rparr>"
  let ?w = "w\<lparr>nodes := (nodes w)(a := None), res := mr', heap := h'\<rparr>"
  from n(1,2) a0 dd have r: "pop L (q, w) = Returns () (?q, ?w)"
    by (simp add: pop_def Let_def)
  from chain_head_null [OF n(3)] have e: "(next n = nullptr) = (ps = [])" .
  have ch: "chain ((nodes w)(a := None)) (next n) ps"
    using n(3) aps by (simp add: chain_upd)
  have l': "list_all (\<lambda>x. live h' x \<noteq> None) ps"
    using l same aps by (auto simp: list_all_iff)
  have "map (\<lambda>x. map_option value (((nodes w)(a := None)) x)) ps
          = map (\<lambda>x. map_option value (nodes w x)) ps"
    using aps by (intro map_cong) auto
  with vals have v': "map (\<lambda>x. map_option value (((nodes w)(a := None)) x)) ps = map Some vs"
    by simp
  have sz: "size_m q - 1 = of_nat (length ps)" using s by simp
  from ch d t e l' v' sz have "q_inv (?q, ?w) ps vs"
    by (simp add: q_inv_def del: fun_upd_apply)
  with r ok' dd show ?thesis by simp
qed

lemma q_inv_heap_grows:
  assumes "q_inv (q, w) ps vs" and "live (heap w) p = None"
  shows "q_inv (q, w\<lparr>res := mr', heap := (heap w)\<lparr>live := (live (heap w))(p \<mapsto> x)\<rparr>\<rparr>) ps vs"
  using assms by (auto simp: q_inv_def list_all_iff)

lemma step_ok:
  assumes "state_ok s" and "answer_ok c s"
  shows "\<exists>s'. step L c s = Some s' \<and> state_ok s'"
proof -
  obtain q w where s: "s = (q, w)" by (cases s)
  from assms(1) s obtain ps vs where inv: "q_inv (q, w) ps vs" and ok: "mr_ok (res w) (heap w)"
    by (auto simp: state_ok_def)
  show ?thesis
  proof (cases c)
    case Pop
    show ?thesis
    proof (cases ps)
      case Nil
      with inv have "head_m q = nullptr" by (simp add: q_inv_def)
      with Pop s assms(1) show ?thesis by (simp add: pop_def)
    next
      case (Cons a as)
      from inv Cons obtain u us where "vs = u # us" by (cases vs) (auto simp: q_inv_def)
      with inv Cons pop_returns [of q w a as u us, OF _ ok, of L] obtain q' w' where
        r: "pop L (q, w) = Returns () (q', w')" "q_inv (q', w') as us" "mr_ok (res w') (heap w')"
        by blast
      from r(2,3) have "state_ok (q', w')" unfolding state_ok_def by auto
      with r(1) Pop s show ?thesis by simp
    qed
  next
    case (Push v r ctor_ok)
    show ?thesis
    proof (cases r)
      case None
      with Push s assms(1) show ?thesis by (simp add: push_def do_allocate_None)
    next
      case (Some p)
      with assms(2) Push s have p0: "p \<noteq> nullptr" and fresh: "live (heap w) p = None"
        by (simp_all add: new_ok_def)
      let ?mr = "(res w)\<lparr>blocks_m := blocks_m (res w) @
               [\<lparr>ptr = p, size_b = sizeof_Node L, alignment = alignof_Node L, allocated = True\<rparr>]\<rparr>"
      let ?h = "(heap w)\<lparr>live := (live (heap w))(p \<mapsto> (sizeof_Node L, alignof_Node L))\<rparr>"
      have ok': "mr_ok ?mr ?h" by (rule mr_ok_allocate [OF ok p0 fresh])
      show ?thesis
      proof (cases ctor_ok)
        case False
        from q_inv_heap_grows [OF inv fresh, where mr' = ?mr and x = "(sizeof_Node L, alignof_Node L)"] ok'
        have "state_ok (q, w\<lparr>res := ?mr, heap := ?h\<rparr>)" by (auto simp: state_ok_def)
        with False Push Some s show ?thesis by (simp add: push_def do_allocate_Some)
      next
        case True
        from push_returns [OF inv p0 fresh, of L v] obtain q' w' where
          r: "push L v (Some p) True (q, w) = Returns () (q', w')"
          "q_inv (q', w') (ps @ [p]) (vs @ [v])" "res w' = ?mr" "heap w' = ?h"
          by blast
        from r(2,3,4) ok' have "state_ok (q', w')" unfolding state_ok_def by auto
        with r(1) True Push Some s show ?thesis by simp
      qed
    qed
  qed
qed

lemma run_ok:
  "state_ok s \<Longrightarrow> answers_ok L cs s \<Longrightarrow> \<exists>s'. run L cs s = Some s' \<and> state_ok s'"
proof (induction cs arbitrary: s)
  case Nil
  then show ?case by simp
next
  case (Cons c cs)
  from Cons.prems step_ok [of s c L] obtain s1 where
    s1: "step L c s = Some s1" "state_ok s1" by auto
  with Cons.prems Cons.IH [of s1] show ?case by simp
qed

lemma push_all_returns:
  "q_inv (q, w) ps vs \<Longrightarrow> distinct (map fst pvs) \<Longrightarrow> nullptr \<notin> fst ` set pvs
     \<Longrightarrow> list_all (\<lambda>pv. live (heap w) (fst pv) = None) pvs
     \<Longrightarrow> \<exists>q' w'. push_all L pvs (q, w) = Returns () (q', w') \<and>
           q_inv (q', w') (ps @ map fst pvs) (vs @ map snd pvs) \<and>
           blocks_m (res w') = blocks_m (res w) @
             map (\<lambda>pv. \<lparr>ptr = fst pv, size_b = sizeof_Node L, alignment = alignof_Node L,
                         allocated = True\<rparr>) pvs \<and>
           deleted (heap w') = deleted (heap w) \<and>
           (\<forall>a. live (heap w') a =
              (if a \<in> fst ` set pvs then Some (sizeof_Node L, alignof_Node L) else live (heap w) a))"
proof (induction pvs arbitrary: q w ps vs)
  case Nil
  then show ?case by simp
next
  case (Cons pv pvs)
  obtain p v where pv: "pv = (p, v)" by (cases pv)
  from Cons.prems pv have p0: "p \<noteq> nullptr" and fresh: "live (heap w) p = None" by auto
  from push_returns [OF Cons.prems(1) p0 fresh, of L v] obtain q1 w1 where
    r1: "push L v (Some p) True (q, w) = Returns () (q1, w1)"
    and inv1: "q_inv (q1, w1) (ps @ [p]) (vs @ [v])"
    and res1: "res w1 = (res w)\<lparr>blocks_m := blocks_m (res w) @
               [\<lparr>ptr = p, size_b = sizeof_Node L, alignment = alignof_Node L, allocated = True\<rparr>]\<rparr>"
    and heap1: "heap w1 = (heap w)\<lparr>live := (live (heap w))(p \<mapsto> (sizeof_Node L, alignof_Node L))\<rparr>"
    by blast
  from Cons.prems pv have d: "distinct (map fst pvs)" and n: "nullptr \<notin> fst ` set pvs"
    and pn: "p \<notin> fst ` set pvs" by auto
  have l: "list_all (\<lambda>pv. live (heap w1) (fst pv) = None) pvs"
    using Cons.prems(4) pn heap1 by (auto simp: list_all_iff)
  from Cons.IH [OF inv1 d n l] obtain q' w' where
    r: "push_all L pvs (q1, w1) = Returns () (q', w')"
    and inv': "q_inv (q', w') ((ps @ [p]) @ map fst pvs) ((vs @ [v]) @ map snd pvs)"
    and b: "blocks_m (res w') = blocks_m (res w1) @
             map (\<lambda>pv. \<lparr>ptr = fst pv, size_b = sizeof_Node L, alignment = alignof_Node L,
                         allocated = True\<rparr>) pvs"
    and del: "deleted (heap w') = deleted (heap w1)"
    and lv: "\<forall>a. live (heap w') a =
              (if a \<in> fst ` set pvs then Some (sizeof_Node L, alignof_Node L) else live (heap w1) a)"
    by blast
  from r r1 pv have "push_all L (pv # pvs) (q, w) = Returns () (q', w')" by simp
  moreover from inv' pv have "q_inv (q', w') (ps @ map fst (pv # pvs)) (vs @ map snd (pv # pvs))"
    by simp
  moreover from b res1 pv have "blocks_m (res w') = blocks_m (res w) @
             map (\<lambda>pv. \<lparr>ptr = fst pv, size_b = sizeof_Node L, alignment = alignof_Node L,
                         allocated = True\<rparr>) (pv # pvs)"
    by simp
  moreover from del heap1 have "deleted (heap w') = deleted (heap w)" by simp
  moreover from lv heap1 pv have "\<forall>a. live (heap w') a =
              (if a \<in> fst ` set (pv # pvs) then Some (sizeof_Node L, alignof_Node L)
               else live (heap w) a)"
    by auto
  ultimately show ?case by blast
qed

section \<open>Pushing and iterating\<close>

text \<open>
  C1.  Values \<open>v1..vn\<close> are pushed onto a queue constructed empty, in any world.  The
  nodes are all allocated at once, so the promise of \<^verbatim>\<open>operator new\<close> makes the system
  hand out \<open>n\<close> distinct non-null addresses that were not allocated before.  Then every
  push returns, the loop from \<^verbatim>\<open>begin()\<close> to \<^verbatim>\<open>end()\<close> ends as soon as it has fuel for
  \<open>n + 1\<close> tests and yields exactly \<open>v1..vn\<close> in that order, and \<^verbatim>\<open>size()\<close> is \<open>n\<close>.
\<close>

theorem pushes_then_iteration:
  assumes "distinct (map fst pvs)" and "nullptr \<notin> fst ` set pvs"
    and "list_all (\<lambda>pv. live (heap w) (fst pv) = None) pvs"
  shows "\<exists>q' w'. push_all L pvs (pmr_queue_ctor, w) = Returns () (q', w') \<and>
           (\<forall>k. collect (Suc (length pvs) + k) q' w' = Some (Returns (map snd pvs) ())) \<and>
           unat (queue_size q') = length pvs"
proof -
  from push_all_returns [OF q_inv_ctor assms, of L] obtain q' w' where
    r: "push_all L pvs (pmr_queue_ctor, w) = Returns () (q', w')"
    and inv: "q_inv (q', w') (map fst pvs) (map snd pvs)"
    by auto
  from inv have c: "chain (nodes w') (head_m q') (map fst pvs)"
    and vals: "map (\<lambda>a. map_option value (nodes w' a)) (map fst pvs) = map Some (map snd pvs)"
    and s: "size_m q' = of_nat (length pvs)"
    by (simp_all add: q_inv_def)
  have "collect (Suc (length pvs) + k) q' w' = Some (Returns (map snd pvs) ())" for k
    using iterate_chain [OF c vals, of k "[]"] by (simp add: collect_def queue_begin_def queue_end_def)
  moreover from assms(1,2) have "length (map fst pvs) < 2 ^ 64"
    by (intro length_addrs_bound) simp_all
  with s have "unat (queue_size q') = length pvs" by (simp add: queue_size_def unat_of_nat)
  ultimately show ?thesis using r by blast
qed

theorem pushes_then_iteration_witness:
  "\<exists>q' w'. push_all int_layout five_pushes (pmr_queue_ctor, fresh_world) = Returns () (q', w') \<and>
      collect 6 q' w' = Some (Returns [1, 2, 3, 4, 5] ()) \<and> unat (queue_size q') = 5"
proof -
  have "distinct (map fst five_pushes)" "nullptr \<notin> fst ` set five_pushes"
    "list_all (\<lambda>pv. live (heap fresh_world) (fst pv) = None) five_pushes"
    by (simp_all add: five_pushes_def nullptr_def fresh_world_def fresh_heap_def)
  from pushes_then_iteration [OF this, of int_layout] obtain q' w' where
    r: "push_all int_layout five_pushes (pmr_queue_ctor, fresh_world) = Returns () (q', w')"
    "\<forall>k. collect (Suc (length five_pushes) + k) q' w' = Some (Returns (map snd five_pushes) ())"
    "unat (queue_size q') = length five_pushes"
    by blast
  have n: "Suc (length five_pushes) + 0 = 6" "length five_pushes = 5"
    "map snd five_pushes = [1, 2, 3, 4, 5]"
    by (simp_all add: five_pushes_def)
  from r(2) have "collect (Suc (length five_pushes) + 0) q' w' = Some (Returns (map snd five_pushes) ())"
    by blast
  with n have "collect 6 q' w' = Some (Returns [1, 2, 3, 4, 5] ())" by simp
  moreover from r(3) n have "unat (queue_size q') = 5" by simp
  ultimately show ?thesis using r(1) by blast
qed

section \<open>The invariant of the queue\<close>

text \<open>
  C7.  A queue is constructed on a resource that agrees with the system heap, and any
  sequence of pushes and pops follows, those that throw included, with every answer of
  \<^verbatim>\<open>operator new\<close> keeping its promise.  Then no call has undefined behaviour and the
  invariant of the specification holds at the end, hence after every call of the
  sequence: the count is 0 iff the head is null iff the tail is null; if the count is not
  0, walking the links from the head visits exactly count nodes and the last is the tail;
  and the link of the tail node is null.
\<close>

theorem queue_invariant_holds:
  assumes "mr_ok (res w) (heap w)" and "answers_ok L cs (pmr_queue_ctor, w)"
  shows "\<exists>q' w'. run L cs (pmr_queue_ctor, w) = Some (q', w') \<and> queue_inv q' (nodes w')"
proof -
  from assms(1) q_inv_ctor [of w] have "state_ok (pmr_queue_ctor, w)"
    unfolding state_ok_def by auto
  from run_ok [OF this assms(2)] obtain q' w' where
    r: "run L cs (pmr_queue_ctor, w) = Some (q', w')" and ok: "state_ok (q', w')"
    by auto
  from ok obtain ps vs where "q_inv (q', w') ps vs" by (auto simp: state_ok_def)
  then have "queue_inv q' (nodes w')" by (rule q_inv_queue_inv)
  with r show ?thesis by blast
qed

theorem queue_invariant_holds_witness:
  "mr_ok (res fresh_world) (heap fresh_world) \<and>
   answers_ok int_layout mixed_calls (pmr_queue_ctor, fresh_world) \<and>
   map_option fst (run int_layout mixed_calls (pmr_queue_ctor, fresh_world))
     = Some \<lparr>head_m = 4096, tail_m = 4096, size_m = 1\<rparr> \<and>
   (\<exists>q' w'. run int_layout mixed_calls (pmr_queue_ctor, fresh_world) = Some (q', w') \<and>
      queue_inv q' (nodes w'))"
proof -
  have ok: "mr_ok (res fresh_world) (heap fresh_world)"
    by (simp add: mr_ok_def fresh_world_def fresh_heap_def DynamicVectorMemoryResource_ctor_def)
  have ans: "answers_ok int_layout mixed_calls (pmr_queue_ctor, fresh_world)"
    by (simp add: mixed_calls_def pmr_queue_ctor_def fresh_world_def fresh_heap_def int_layout_def
        DynamicVectorMemoryResource_ctor_def push_def pop_def do_allocate_def do_deallocate_def
        operator_new_def operator_delete_def find_block_def new_ok_def nullptr_def node_at_def)
  have "map_option fst (run int_layout mixed_calls (pmr_queue_ctor, fresh_world))
          = Some \<lparr>head_m = 4096, tail_m = 4096, size_m = 1\<rparr>"
    by (simp add: mixed_calls_def pmr_queue_ctor_def fresh_world_def fresh_heap_def int_layout_def
        DynamicVectorMemoryResource_ctor_def push_def pop_def do_allocate_def do_deallocate_def
        operator_new_def operator_delete_def find_block_def new_ok_def nullptr_def node_at_def)
  with queue_invariant_holds [OF ok ans] ok ans show ?thesis by blast
qed

section \<open>Round trips\<close>

lemma push_all_mr_ok:
  "mr_ok (res w) (heap w) \<Longrightarrow> nullptr \<notin> fst ` set pvs \<Longrightarrow> distinct (map fst pvs)
     \<Longrightarrow> list_all (\<lambda>pv. live (heap w) (fst pv) = None) pvs
     \<Longrightarrow> push_all L pvs (q, w) = Returns () (q', w') \<Longrightarrow> mr_ok (res w') (heap w')"
proof (induction pvs arbitrary: q w)
  case Nil
  then show ?case by simp
next
  case (Cons pv pvs)
  obtain p v where pv: "pv = (p, v)" by (cases pv)
  from Cons.prems pv have p0: "p \<noteq> nullptr" and fresh: "live (heap w) p = None"
    and pn: "p \<notin> fst ` set pvs" by auto
  from Cons.prems(5) pv obtain q1 w1 where
    r1: "push L v (Some p) True (q, w) = Returns () (q1, w1)"
    and r: "push_all L pvs (q1, w1) = Returns () (q', w')"
    by (auto split: outcome.splits)
  from r1 have res1: "res w1 = (res w)\<lparr>blocks_m := blocks_m (res w) @
               [\<lparr>ptr = p, size_b = sizeof_Node L, alignment = alignof_Node L, allocated = True\<rparr>]\<rparr>"
    and heap1: "heap w1 = (heap w)\<lparr>live := (live (heap w))(p \<mapsto> (sizeof_Node L, alignof_Node L))\<rparr>"
    by (auto simp: push_def do_allocate_Some Let_def split: if_splits option.splits)
  from mr_ok_allocate [OF Cons.prems(1) p0 fresh] res1 heap1 have ok1: "mr_ok (res w1) (heap w1)"
    by simp
  have l: "list_all (\<lambda>pv. live (heap w1) (fst pv) = None) pvs"
    using Cons.prems(4) pn heap1 by (auto simp: list_all_iff)
  from Cons.prems(2,3) have "nullptr \<notin> fst ` set pvs" "distinct (map fst pvs)" by auto
  from Cons.IH [OF ok1 this l r] show ?case .
qed

lemma pop_n_releases:
  "q_inv (q, w) ps vs \<Longrightarrow> mr_ok (res w) (heap w)
     \<Longrightarrow> blocks_m (res w) = ds @ map (node_record L True) ps
     \<Longrightarrow> set ps \<inter> ptr ` set ds = {}
     \<Longrightarrow> \<exists>q' w'. pop_n L (length ps) (q, w) = Returns () (q', w') \<and> q_inv (q', w') [] [] \<and>
           blocks_m (res w') = ds @ map (node_record L False) ps \<and>
           (\<forall>x. live (heap w') x = (if x \<in> set ps then None else live (heap w) x))"
proof (induction ps arbitrary: q w vs ds)
  case Nil
  then have "vs = []" by (simp add: q_inv_def)
  with Nil show ?case by simp
next
  case (Cons a ps)
  from Cons.prems(1) obtain v vs' where vs: "vs = v # vs'" by (cases vs) (auto simp: q_inv_def)
  from Cons.prems(1) have aps: "a \<notin> set ps" by (simp add: q_inv_def)
  from pop_returns [OF Cons.prems(1) [unfolded vs] Cons.prems(2), of L] obtain q1 w1 where
    r1: "pop L (q, w) = Returns () (q1, w1)" and inv1: "q_inv (q1, w1) ps vs'"
    and ok1: "mr_ok (res w1) (heap w1)"
    and dd: "do_deallocate (res w, heap w) a (sizeof_Node L) (alignof_Node L)
               = Returns () (res w1, heap w1)"
    by blast
  from Cons.prems(4) have "\<forall>x\<in>set ds. \<not> ptr x = a" by auto
  then have "find_if (\<lambda>b. ptr b = a) (ds @ node_record L True a # map (node_record L True) ps)
               = Some (length ds)"
    by (rule find_if_append_first) (simp add: node_record_def)
  with Cons.prems(3) have f: "find_block (res w) a = Some (length ds)"
    by (simp add: find_block_def)
  from Cons.prems(3) have al: "allocated (blocks_m (res w) ! length ds)"
    by (simp add: node_record_def)
  from do_deallocate_live [OF f al Cons.prems(2), of "sizeof_Node L" "alignof_Node L"] dd
    Cons.prems(3)
  have b1: "blocks_m (res w1) = (ds @ [node_record L False a]) @ map (node_record L True) ps"
    and h1: "live (heap w1) = (live (heap w))(a := None)"
    by (simp_all add: node_record_def)
  from Cons.prems(4) aps have dj: "set ps \<inter> ptr ` set (ds @ [node_record L False a]) = {}"
    by (auto simp: node_record_def)
  from Cons.IH [OF inv1 ok1 b1 dj] obtain q' w' where
    r: "pop_n L (length ps) (q1, w1) = Returns () (q', w')" and inv': "q_inv (q', w') [] []"
    and b: "blocks_m (res w') = (ds @ [node_record L False a]) @ map (node_record L False) ps"
    and lv: "\<forall>x. live (heap w') x = (if x \<in> set ps then None else live (heap w1) x)"
    by blast
  from r r1 have "pop_n L (length (a # ps)) (q, w) = Returns () (q', w')" by simp
  moreover from b have "blocks_m (res w') = ds @ map (node_record L False) (a # ps)" by simp
  moreover from lv h1
  have "\<forall>x. live (heap w') x = (if x \<in> set (a # ps) then None else live (heap w) x)"
    by auto
  ultimately show ?case using inv' by blast
qed

text \<open>
  The round trip releases every node, provided that none of the addresses the system
  hands out for the nodes is the address of a record the resource already holds; this is
  so in particular on a resource that holds no record yet.
\<close>

lemma round_trip_without_collision:
  assumes ok: "mr_ok (res w) (heap w)"
    and d: "distinct (map fst pvs)" and n: "nullptr \<notin> fst ` set pvs"
    and l: "list_all (\<lambda>pv. live (heap w) (fst pv) = None) pvs"
    and dj: "fst ` set pvs \<inter> ptr ` set (blocks_m (res w)) = {}"
  shows "\<exists>q1 w1 q' w'. push_all L pvs (pmr_queue_ctor, w) = Returns () (q1, w1) \<and>
           pop_n L (length pvs) (q1, w1) = Returns () (q', w') \<and>
           queue_empty q' \<and> queue_size q' = 0 \<and>
           blocks_m (res w') = blocks_m (res w) @ map (node_record L False) (map fst pvs) \<and>
           live (heap w') = live (heap w)"
proof -
  from push_all_returns [OF q_inv_ctor d n l, of L] obtain q1 w1 where
    r1: "push_all L pvs (pmr_queue_ctor, w) = Returns () (q1, w1)"
    and inv1: "q_inv (q1, w1) (map fst pvs) (map snd pvs)"
    and b1: "blocks_m (res w1) = blocks_m (res w) @
             map (\<lambda>pv. \<lparr>ptr = fst pv, size_b = sizeof_Node L, alignment = alignof_Node L,
                         allocated = True\<rparr>) pvs"
    and lv1: "\<forall>a. live (heap w1) a =
              (if a \<in> fst ` set pvs then Some (sizeof_Node L, alignof_Node L) else live (heap w) a)"
    by auto
  from push_all_mr_ok [OF ok n d l r1] have ok1: "mr_ok (res w1) (heap w1)" .
  from b1 have b1': "blocks_m (res w1) = blocks_m (res w) @ map (node_record L True) (map fst pvs)"
    by (simp add: node_record_def comp_def)
  from dj have dj': "set (map fst pvs) \<inter> ptr ` set (blocks_m (res w)) = {}" by simp
  from pop_n_releases [OF inv1 ok1 b1' dj'] obtain q' w' where
    r: "pop_n L (length pvs) (q1, w1) = Returns () (q', w')" and inv': "q_inv (q', w') [] []"
    and b: "blocks_m (res w') = blocks_m (res w) @ map (node_record L False) (map fst pvs)"
    and lv: "\<forall>x. live (heap w') x = (if x \<in> set (map fst pvs) then None else live (heap w1) x)"
    by auto
  from inv' have "queue_empty q'" "queue_size q' = 0"
    by (simp_all add: q_inv_def queue_empty_def queue_size_def)
  moreover have "live (heap w') = live (heap w)"
  proof
    fix x
    show "live (heap w') x = live (heap w) x"
    proof (cases "x \<in> fst ` set pvs")
      case True
      then obtain pv where "pv \<in> set pvs" "x = fst pv" by auto
      with l have "live (heap w) x = None" by (auto simp: list_all_iff)
      with lv True show ?thesis by simp
    next
      case False
      with lv lv1 show ?thesis by simp
    qed
  qed
  ultimately show ?thesis using r1 r b by blast
qed

lemma round_trip_fresh_resource:
  assumes "blocks_m (res w) = []" and "live (heap w) nullptr = None"
    and "distinct (map fst pvs)" and "nullptr \<notin> fst ` set pvs"
    and "list_all (\<lambda>pv. live (heap w) (fst pv) = None) pvs"
  shows "\<exists>q1 w1 q' w'. push_all L pvs (pmr_queue_ctor, w) = Returns () (q1, w1) \<and>
           pop_n L (length pvs) (q1, w1) = Returns () (q', w') \<and>
           queue_empty q' \<and> queue_size q' = 0 \<and>
           list_all (\<lambda>b. \<not> allocated b) (blocks_m (res w')) \<and>
           live (heap w') = live (heap w)"
proof -
  from assms(1,2) have ok: "mr_ok (res w) (heap w)" by (simp add: mr_ok_def)
  from assms(1) have dj: "fst ` set pvs \<inter> ptr ` set (blocks_m (res w)) = {}" by simp
  from round_trip_without_collision [OF ok assms(3,4,5) dj, of L] assms(1) show ?thesis
    by (auto simp: list_all_iff node_record_def)
qed

text \<open>
  C3 fails on the code.  A first round trip on a fresh resource leaves one record, marked
  not allocated, for the address 4096.  When the system hands out that address again for
  the node of the next push (it is free, so the promise of \<^verbatim>\<open>operator new\<close> is kept),
  the resource holds two records for it, and the deallocation that the pop makes finds
  the first: the queue ends empty with size 0, but the record of the node is still marked
  allocated and its block is still allocated in the system heap.
\<close>

theorem round_trip_on_reused_address_leaves_live_record:
  "answers_ok int_layout first_round_trip (pmr_queue_ctor, fresh_world) \<and>
   run int_layout first_round_trip (pmr_queue_ctor, fresh_world) = Some (pmr_queue_ctor, used_world) \<and>
   new_ok (heap used_world) (Some 4096) \<and>
   (case push_all int_layout [(4096, 8)] (pmr_queue_ctor, used_world) of
      Returns u s1 \<Rightarrow> pop_n int_layout 1 s1
    | Throws e s1 \<Rightarrow> Throws e s1
    | Undefined \<Rightarrow> Undefined) = Returns () (pmr_queue_ctor, leak_world) \<and>
   queue_empty pmr_queue_ctor \<and> queue_size pmr_queue_ctor = 0 \<and>
   map allocated (blocks_m (res leak_world)) = [False, True] \<and>
   live (heap leak_world) 4096 = Some (16, 8)"
  by (simp add: first_round_trip_def used_world_def leak_world_def pmr_queue_ctor_def
      fresh_world_def fresh_heap_def int_layout_def DynamicVectorMemoryResource_ctor_def
      push_def pop_def do_allocate_def do_deallocate_def operator_new_def operator_delete_def
      find_block_def new_ok_def nullptr_def node_at_def queue_empty_def queue_size_def)

section \<open>The empty queue and the end position\<close>

text \<open>
  C2.  A queue as its constructor leaves it is empty, has size 0, and its begin position
  equals its end position.  On every empty queue \<^verbatim>\<open>front()\<close> and \<^verbatim>\<open>pop()\<close> throw
  \<^verbatim>\<open>std::runtime_error\<close>, and the failed \<^verbatim>\<open>pop()\<close> leaves the queue and everything it
  works on as they were.
\<close>

theorem fresh_queue_is_empty_and_reports:
  "queue_empty pmr_queue_ctor \<and> queue_size pmr_queue_ctor = 0 \<and>
   operator_eq (queue_begin pmr_queue_ctor) (queue_end pmr_queue_ctor) \<and>
   (queue_empty q \<longrightarrow>
      front q w = Throws (runtime_error ''front of empty queue'') () \<and>
      pop L (q, w) = Throws (runtime_error ''pop from empty queue'') (q, w) \<and>
      reported (front q w) \<and> reported (pop L (q, w)))"
  by (simp add: queue_empty_def queue_size_def pmr_queue_ctor_def operator_eq_def
      queue_begin_def queue_end_def QueueIterator_ctor_def front_def pop_def)

theorem fresh_queue_is_empty_and_reports_witness:
  "queue_empty pmr_queue_ctor \<and>
   front pmr_queue_ctor fresh_world = Throws (runtime_error ''front of empty queue'') () \<and>
   pop int_layout (pmr_queue_ctor, fresh_world)
     = Throws (runtime_error ''pop from empty queue'') (pmr_queue_ctor, fresh_world) \<and>
   queue_size pmr_queue_ctor = 0"
  using fresh_queue_is_empty_and_reports [of pmr_queue_ctor fresh_world int_layout]
  by simp

text \<open>
  C10.  Advancing an iterator that is at the end position, by the pre-increment or by the
  post-increment, returns and leaves it at the end position, whatever the node memory
  holds; the post-increment returns the end position as well.
\<close>

theorem advance_at_end_is_noop:
  "operator_preinc (queue_end q) m = Returns () (queue_end q) \<and>
   operator_postinc (queue_end q) m = Returns (queue_end q) (queue_end q) \<and>
   operator_preinc QueueIterator_default m = Returns () QueueIterator_default \<and>
   operator_postinc QueueIterator_default m = Returns QueueIterator_default QueueIterator_default"
  by (simp add: operator_preinc_def operator_postinc_def queue_end_def
      QueueIterator_default_def QueueIterator_ctor_def)

text \<open>
  C8, as the code has it.  \<^verbatim>\<open>operator*\<close> and \<^verbatim>\<open>operator->\<close> do not test the node
  pointer: at the end position (from \<^verbatim>\<open>end()\<close> or from the default constructor) they
  read through the null pointer, which is undefined behaviour, and nothing is thrown.
\<close>

theorem deref_end_is_undefined:
  "operator_star (queue_end q) m = Undefined \<and> operator_arrow (queue_end q) m = Undefined \<and>
   operator_star QueueIterator_default m = Undefined \<and>
   operator_arrow QueueIterator_default m = Undefined"
  by (simp add: operator_star_def operator_arrow_def queue_end_def node_at_def
      QueueIterator_default_def QueueIterator_ctor_def)

text \<open>
  C8, as the specification words it, fails: dereferencing the end position of the queue
  just constructed reports no condition.
\<close>

theorem deref_end_not_reported:
  "\<not> reported (operator_star (queue_end pmr_queue_ctor) (nodes fresh_world)) \<and>
   \<not> reported (operator_arrow (queue_end pmr_queue_ctor) (nodes fresh_world))"
  by (simp add: operator_star_def operator_arrow_def queue_end_def node_at_def
      QueueIterator_ctor_def)

section \<open>A push whose element cannot be constructed\<close>

text \<open>
  C9.  When the constructor of the element throws during \<^verbatim>\<open>push\<close>, the exception leaves
  the queue object (head, tail, count) and every constructed node, links included, as
  they were before the call: the node is constructed before it is linked.  Only the
  resource and the system heap differ, by the block that was allocated for the node.
\<close>

theorem push_ctor_failure_keeps_chain:
  "\<exists>w'. push L v (Some p) False (q, w) = Throws value_ctor_exception (q, w') \<and>
         nodes w' = nodes w \<and> queue_inv q (nodes w') = queue_inv q (nodes w)"
  by (simp add: push_def do_allocate_def operator_new_def)

end
